theory Spec2Isabelle
  imports Complex_Main "HOL-Library.Word" "HOL-Library.Sublist"
begin

chapter \<open>The ingestion pipeline of the rag chatbot\<close>

text \<open>
  A shallow embedding of the ingestion script (\<^verbatim>\<open>chunkText\<close>, \<^verbatim>\<open>withRetry\<close>,
  \<^verbatim>\<open>extractTextSmart\<close>, \<^verbatim>\<open>ocrPdfToText\<close>, \<^verbatim>\<open>splitByPages\<close>, \<^verbatim>\<open>createLimiter\<close> and
  the loop of \<^verbatim>\<open>main\<close>). The first part holds the model, function by function; the
  second part holds the properties.
\<close>

section \<open>Model\<close>

subsection \<open>Strings\<close>

text \<open>
  A JavaScript string is a sequence of UTF-16 code units; \<^verbatim>\<open>length\<close>, \<^verbatim>\<open>slice\<close>
  and the regular expressions of the source (none has the \<^verbatim>\<open>u\<close> flag) all count code units.
\<close>

type_synonym jschar = "16 word"
type_synonym jsstring = "jschar list"

text \<open>
  The characters matched by \<^verbatim>\<open>\s\<close> and stripped by \<^verbatim>\<open>String.prototype.trim\<close>: ECMAScript's
  WhiteSpace (TAB, VT, FF, ZWNBSP and the category Zs) and LineTerminator (LF, CR, LS, PS).
\<close>

definition is_ws :: "jschar \<Rightarrow> bool" where
  "is_ws c \<longleftrightarrow>
     c \<in> {0x09, 0x0A, 0x0B, 0x0C, 0x0D, 0x20, 0xA0, 0x1680, 0x2028, 0x2029, 0x202F, 0x205F,
          0x3000, 0xFEFF}
     \<or> (0x2000 \<le> c \<and> c \<le> 0x200A)"

text \<open>The characters matched by \<^verbatim>\<open>\d\<close>: the ASCII digits.\<close>

definition is_digit :: "jschar \<Rightarrow> bool" where
  "is_digit c \<longleftrightarrow> 0x30 \<le> c \<and> c \<le> 0x39"

text \<open>\<^verbatim>\<open>s.trim()\<close>\<close>

definition trim :: "jsstring \<Rightarrow> jsstring" where
  "trim s = rev (dropWhile is_ws (rev (dropWhile is_ws s)))"

text \<open>\<^verbatim>\<open>s.replace(/\s+/g, " ")\<close>: every maximal run of whitespace becomes one space.\<close>

function collapse_ws :: "jsstring \<Rightarrow> jsstring" where
  "collapse_ws [] = []"
| "collapse_ws (c # cs) =
     (if is_ws c then 0x20 # collapse_ws (dropWhile is_ws cs) else c # collapse_ws cs)"
  by pat_completeness auto
termination
  by (relation "measure length") (auto simp: length_dropWhile_le less_Suc_eq_le)

text \<open>
  \<^verbatim>\<open>s.slice(start, end)\<close> for integer arguments: a negative index counts from the end of
  the string, both indices are clamped to the string, and an empty range gives the empty
  string.
\<close>

definition js_slice :: "jsstring \<Rightarrow> int \<Rightarrow> int \<Rightarrow> jsstring" where
  "js_slice s start fin =
     (let len = int (length s);
          from = (if start < 0 then max (len + start) 0 else min start len);
          to = (if fin < 0 then max (len + fin) 0 else min fin len)
      in take (nat (to - from)) (drop (nat from) s))"

subsection \<open>The chunker (\<^verbatim>\<open>chunkText\<close>, src/lib/rag.ts)\<close>

text \<open>
  The \<^verbatim>\<open>while\<close> loop of \<^verbatim>\<open>chunkText\<close>, with the loop variable \<^verbatim>\<open>i\<close> and the array
  \<^verbatim>\<open>chunks\<close> as arguments. Sizes are integers (the driver passes 900 and 150). Nothing in
  the source makes the loop advance, so the loop is a partial function: \<open>None\<close> is a call
  that never returns.
\<close>

partial_function (option) chunk_loop ::
  "jsstring \<Rightarrow> int \<Rightarrow> int \<Rightarrow> int \<Rightarrow> jsstring list \<Rightarrow> jsstring list option" where
  "chunk_loop clean chunkSize overlap i chunks =
     (if i < int (length clean) then
        (let part = trim (js_slice clean i (i + chunkSize))
         in chunk_loop clean chunkSize overlap (i + (chunkSize - overlap))
              (if 60 < length part then chunks @ [part] else chunks))
      else Some chunks)"

declare chunk_loop.simps [code]

definition chunkText :: "jsstring \<Rightarrow> int \<Rightarrow> int \<Rightarrow> jsstring list option" where
  "chunkText text chunkSize overlap =
     chunk_loop (trim (collapse_ws text)) chunkSize overlap 0 []"

text \<open>
  Vocabulary for the properties of the chunker. \<open>offsets len step i\<close> are the values the
  loop variable takes from \<open>i\<close> on when it advances by a positive \<open>step\<close>; \<open>window\<close> is the
  slice taken at an offset, before trimming; \<open>emitted\<close> are the chunks pushed for a list of
  offsets.
\<close>

function offsets :: "int \<Rightarrow> int \<Rightarrow> int \<Rightarrow> int list" where
  "offsets len step i = (if 0 < step \<and> i < len then i # offsets len step (i + step) else [])"
  by pat_completeness auto
termination
  by (relation "measure (\<lambda>(len, step, i). nat (len - i))") auto

declare offsets.simps [simp del]

definition window :: "jsstring \<Rightarrow> int \<Rightarrow> int \<Rightarrow> jsstring" where
  "window clean chunkSize i = js_slice clean i (i + chunkSize)"

definition emitted :: "jsstring \<Rightarrow> int \<Rightarrow> int list \<Rightarrow> jsstring list" where
  "emitted clean chunkSize os =
     filter (\<lambda>p. 60 < length p) (map (\<lambda>i. trim (window clean chunkSize i)) os)"

text \<open>
  The specification's reading of "two chunks share exactly \<open>n\<close> characters": the last \<open>n\<close>
  characters of the earlier chunk are the first \<open>n\<close> characters of the later one.
\<close>

definition share_exactly :: "nat \<Rightarrow> jsstring \<Rightarrow> jsstring \<Rightarrow> bool" where
  "share_exactly n a b \<longleftrightarrow>
     n \<le> length a \<and> n \<le> length b \<and> drop (length a - n) a = take n b"

subsection \<open>The retry policy (\<^verbatim>\<open>withRetry\<close>)\<close>

text \<open>
  What \<^verbatim>\<open>withRetry\<close> reads of a caught value: its status (\<^verbatim>\<open>e?.status ?? e?.response?.status\<close>,
  \<open>None\<close> when there is none) and its retry-after header after \<^verbatim>\<open>Number(...)\<close>:
  \<open>NoHeader\<close> when the header is absent or falsy, \<open>Unparsable\<close> when its number is NaN,
  \<open>Seconds s\<close> otherwise. Durations are milliseconds, as reals.
\<close>

datatype retry_after = NoHeader | Unparsable | Seconds real

record api_error =
  status :: "int option"
  retry_after :: retry_after

text \<open>The value a call throws; \<^verbatim>\<open>lastErr\<close> starts as \<^verbatim>\<open>undefined\<close>.\<close>

datatype thrown = Undefined | Thrown api_error

text \<open>
  What is observed of one call of \<^verbatim>\<open>withRetry\<close>: the value returned or thrown, the
  durations passed to \<^verbatim>\<open>sleep\<close> in order, and how often \<^verbatim>\<open>fn\<close> was invoked.
\<close>

record 'a retry_result =
  outcome :: "thrown + 'a"
  slept :: "real list"
  calls :: nat

definition isRateLimit :: "api_error \<Rightarrow> bool" where
  "isRateLimit e \<longleftrightarrow> status e = Some 429 \<or> status e = Some 403"

text \<open>
  The wait computed in the \<^verbatim>\<open>catch\<close> block at loop index \<open>i\<close>, where \<open>rnd\<close> is the value
  of \<^verbatim>\<open>Math.random()\<close> there.
\<close>

definition backoff :: "nat \<Rightarrow> real \<Rightarrow> api_error \<Rightarrow> real" where
  "backoff i rnd e =
     (let wait = min 60000 (1000 * 2 ^ i) + of_int \<lfloor>rnd * 500\<rfloor>
      in case retry_after e of
           Seconds sec \<Rightarrow> if 0 < sec then max wait (sec * 1000) else wait
         | _ \<Rightarrow> wait)"

text \<open>
  The \<^verbatim>\<open>for\<close> loop. The operation \<^verbatim>\<open>fn\<close> is effectful, so the model is given the result
  of each of its invocations: \<open>fn n\<close> is what the invocation number \<open>n\<close> (from 0) returns
  (\<open>Inr\<close>) or throws (\<open>Inl\<close>); \<open>rnd i\<close> is the random number drawn at loop index \<open>i\<close>.
\<close>

function withRetry_loop ::
  "(nat \<Rightarrow> api_error + 'a) \<Rightarrow> (nat \<Rightarrow> real) \<Rightarrow> nat \<Rightarrow> nat \<Rightarrow> thrown \<Rightarrow> real list \<Rightarrow> nat
     \<Rightarrow> 'a retry_result" where
  "withRetry_loop fn rnd tries i lastErr zs n =
     (if i < tries then
        (case fn n of
           Inr v \<Rightarrow> \<lparr>outcome = Inr v, slept = zs, calls = n + 1\<rparr>
         | Inl e \<Rightarrow>
             if \<not> isRateLimit e then \<lparr>outcome = Inl (Thrown e), slept = zs, calls = n + 1\<rparr>
             else withRetry_loop fn rnd tries (i + 1) (Thrown e)
                    (zs @ [backoff i (rnd i) e]) (n + 1))
      else \<lparr>outcome = Inl lastErr, slept = zs, calls = n\<rparr>)"
  by pat_completeness auto
termination
  by (relation "measure (\<lambda>(fn, rnd, tries, i, lastErr, zs, n). tries - i)") auto

declare withRetry_loop.simps [simp del]

text \<open>The default of the parameter \<^verbatim>\<open>tries\<close>.\<close>

definition attempts :: "nat option \<Rightarrow> nat" where
  "attempts tries = (case tries of None \<Rightarrow> 8 | Some t \<Rightarrow> t)"

definition withRetry ::
  "(nat \<Rightarrow> api_error + 'a) \<Rightarrow> (nat \<Rightarrow> real) \<Rightarrow> nat option \<Rightarrow> 'a retry_result" where
  "withRetry fn rnd tries = withRetry_loop fn rnd (attempts tries) 0 Undefined [] 0"

text \<open>An invocation that failed with a rate-limit signal.\<close>

definition rate_limited :: "api_error + 'a \<Rightarrow> bool" where
  "rate_limited r = (case r of Inl e \<Rightarrow> isRateLimit e | Inr v \<Rightarrow> False)"

text \<open>Sample errors and operations.\<close>

definition limited429 :: api_error where
  "limited429 = \<lparr>status = Some 429, retry_after = Seconds 5\<rparr>"


definition flaky :: "nat \<Rightarrow> api_error + nat" where
  "flaky k = (if k < 2 then Inl limited429 else Inr 7)"



subsection \<open>The text extractor (\<^verbatim>\<open>extractTextSmart\<close>)\<close>

text \<open>
  The failures that abort a run. \<^verbatim>\<open>parsePdf\<close>, the OCR engine, the embedding service and
  the database are outside the program: the model is given what they return.
\<close>

datatype failure = ParseFailed | OcrFailed | EmbeddingFailed | EmptyVector | InsertFailed

text \<open>The result of \<^verbatim>\<open>extractTextSmart\<close> (its field \<^verbatim>\<open>text\<close> is \<open>ex_text\<close> here).\<close>

record extraction =
  ex_text :: jsstring
  usedOcr :: bool

text \<open>
  \<open>parsed\<close> is what \<^verbatim>\<open>parsePdf\<close> returns (the field \<^verbatim>\<open>text\<close> of the parsed document,
  \<open>None\<close> when it is missing) or throws; \<open>ocr\<close> is what \<^verbatim>\<open>ocrPdfToText(pdfPath).text\<close>
  returns or throws if it is called.
\<close>

definition extractTextSmart ::
  "failure + jsstring option \<Rightarrow> failure + jsstring \<Rightarrow> failure + extraction" where
  "extractTextSmart parsed ocr =
     (case parsed of
        Inl f \<Rightarrow> Inl f
      | Inr native \<Rightarrow>
          let t = trim (case native of None \<Rightarrow> [] | Some s \<Rightarrow> s)
          in if length t < 300 then
               (case ocr of
                  Inl f \<Rightarrow> Inl f
                | Inr ocr_text \<Rightarrow> Inr \<lparr>ex_text = ocr_text, usedOcr = True\<rparr>)
             else Inr \<lparr>ex_text = t, usedOcr = False\<rparr>)"

definition padded_native :: jsstring where
  "padded_native = 0x0A # replicate 300 0x61"

subsection \<open>The page splitter (\<^verbatim>\<open>splitByPages\<close>)\<close>

text \<open>The literal \<^verbatim>\<open>[PAGE\<close> of the marker.\<close>

definition page_tag :: jsstring where
  "page_tag = [0x5B, 0x50, 0x41, 0x47, 0x45]"

text \<open>
  A match of \<^verbatim>\<open>/\[PAGE\s+(\d+)\]/\<close> at the start of \<open>s\<close>: the captured digits and the
  text after the match; \<open>marker_tail\<close> matches \<^verbatim>\<open>\s+(\d+)\]\<close>, the part after the
  literal. \<^verbatim>\<open>\s+\<close> and \<^verbatim>\<open>\d+\<close> are greedy, and giving back a character
  never helps: after a shorter run of whitespace comes whitespace, which is no digit, and
  after a shorter run of digits comes a digit, which is no bracket. So the longest runs
  decide the match.
\<close>

definition marker_tail :: "jsstring \<Rightarrow> (jsstring \<times> jsstring) option" where
  "marker_tail r =
     (let ws = takeWhile is_ws r;
          r1 = dropWhile is_ws r;
          ds = takeWhile is_digit r1;
          r2 = dropWhile is_digit r1
      in if ws = [] \<or> ds = [] then None
         else (case r2 of
                 [] \<Rightarrow> None
               | c # r3 \<Rightarrow> if c = 0x5D then Some (ds, r3) else None))"

definition match_marker :: "jsstring \<Rightarrow> (jsstring \<times> jsstring) option" where
  "match_marker s = (if take 5 s = page_tag then marker_tail (drop 5 s) else None)"

text \<open>
  \<^verbatim>\<open>text.split(/\[PAGE\s+(\d+)\]/g)\<close>: the text is scanned from the left; at a match the
  piece read so far and the captured digits are emitted and the scan goes on after the
  match; the piece after the last match ends the list. \<open>acc\<close> is the piece read so far.
  The pattern matches no empty string, so the list is never empty, and it has the form
  \<open>[piece, digits, piece, digits, \<dots>, piece]\<close>.
\<close>

function split_markers :: "jsstring \<Rightarrow> jsstring \<Rightarrow> jsstring list" where
  "split_markers acc [] = [acc]"
| "split_markers acc (c # cs) =
     (case match_marker (c # cs) of
        Some (ds, rest) \<Rightarrow> acc # ds # split_markers [] rest
      | None \<Rightarrow> split_markers (acc @ [c]) cs)"
  by pat_completeness auto
termination
proof (relation "measure (\<lambda>(acc, s). length s)")
  fix acc :: jsstring and c cs x ds rest
  assume m: "match_marker (c # cs) = Some x" and x: "(ds, rest) = x"
  let ?r = "drop 5 (c # cs)"
  let ?r2 = "dropWhile is_digit (dropWhile is_ws ?r)"
  from m x have "\<exists>d. ?r2 = d # rest"
    by (auto simp: match_marker_def marker_tail_def Let_def split: if_splits list.splits)
  then have "length rest < length ?r2" by auto
  also have "\<dots> \<le> length (dropWhile is_ws ?r)" by (rule length_dropWhile_le)
  also have "\<dots> \<le> length ?r" by (rule length_dropWhile_le)
  also have "\<dots> \<le> length (c # cs)" by simp
  finally show "(([], rest), (acc, c # cs)) \<in> measure (\<lambda>(acc, s). length s)" by simp
qed simp_all

text \<open>
  \<^verbatim>\<open>Number(parts[i])\<close> on a string of digits: the decimal value of the string. This is
  what \<^verbatim>\<open>Number\<close> returns as long as the value is at most \<open>2^53\<close>. A JavaScript number
  is a double: above \<open>2^53\<close> \<^verbatim>\<open>Number\<close> returns the nearest double
  (\<^verbatim>\<open>Number("9007199254740993")\<close> is 9007199254740992), and \<^verbatim>\<open>Infinity\<close> from about
  \<open>1.8 \<times> 10^308\<close> on, which this definition does not follow. Statements about the page
  numbers read from an arbitrary text are therefore made for marker numbers up to \<open>2^53\<close>
  (\<open>exact_markers\<close> below).
\<close>

definition Number_digits :: "jsstring \<Rightarrow> nat" where
  "Number_digits ds = foldl (\<lambda>n c. 10 * n + unat (c - 0x30)) 0 ds"

record PageRecord =
  page :: nat
  content :: jsstring

text \<open>
  The \<^verbatim>\<open>for\<close> loop over \<^verbatim>\<open>parts\<close>, from index 1 in steps of 2, on the list from index
  1 on. A missing \<^verbatim>\<open>parts[i + 1]\<close> is read as the empty string.
\<close>

fun page_loop :: "jsstring list \<Rightarrow> PageRecord list" where
  "page_loop (d # t # parts) =
     (let content = trim t
      in if content \<noteq> [] then \<lparr>page = Number_digits d, content = content\<rparr> # page_loop parts
         else page_loop parts)"
| "page_loop [d] = []"
| "page_loop [] = []"

definition splitByPages :: "jsstring \<Rightarrow> PageRecord list" where
  "splitByPages text =
     (let parts = split_markers [] text
      in if length parts \<le> 1 then [\<lparr>page = 1, content = text\<rparr>]
         else (let out = page_loop (tl parts)
               in if out \<noteq> [] then out else [\<lparr>page = 1, content = text\<rparr>]))"

text \<open>The page numbers of the markers of a text, in the order of the markers.\<close>

fun marker_numbers :: "jsstring list \<Rightarrow> nat list" where
  "marker_numbers (d # t # parts) = Number_digits d # marker_numbers parts"
| "marker_numbers [d] = [Number_digits d]"
| "marker_numbers [] = []"

definition marker_pages :: "jsstring \<Rightarrow> nat list" where
  "marker_pages text = marker_numbers (tl (split_markers [] text))"

text \<open>
  Every marker number of the text is at most \<open>2^53\<close>, so that \<^verbatim>\<open>Number\<close> reads each of
  them exactly.
\<close>

definition exact_markers :: "jsstring \<Rightarrow> bool" where
  "exact_markers text \<longleftrightarrow> list_all (\<lambda>n. n \<le> 2 ^ 53) (marker_pages text)"

text \<open>Sample texts: \<^verbatim>\<open>[PAGE 2]a[PAGE 1]b\<close> and \<^verbatim>\<open>[PAGE\t07] a\n[PAGE 8] [PAGE 12]b\<close>.\<close>

definition two_markers :: jsstring where
  "two_markers = [0x5B, 0x50, 0x41, 0x47, 0x45, 0x20, 0x32, 0x5D, 0x61,
                  0x5B, 0x50, 0x41, 0x47, 0x45, 0x20, 0x31, 0x5D, 0x62]"

definition sorted_markers :: jsstring where
  "sorted_markers = [0x5B, 0x50, 0x41, 0x47, 0x45, 0x09, 0x30, 0x37, 0x5D, 0x20, 0x61, 0x0A,
                     0x5B, 0x50, 0x41, 0x47, 0x45, 0x20, 0x38, 0x5D, 0x20,
                     0x5B, 0x50, 0x41, 0x47, 0x45, 0x20, 0x31, 0x32, 0x5D, 0x62]"

subsection \<open>The concurrency limiter (\<^verbatim>\<open>createLimiter\<close>)\<close>

text \<open>
  The parameter \<^verbatim>\<open>max\<close> of \<^verbatim>\<open>createLimiter\<close> is a JavaScript number, and the script
  passes \<^verbatim>\<open>Math.max(1, Number(process.env.EMBED_CONCURRENCY ?? 2))\<close>: any number the
  environment spells, \<^verbatim>\<open>NaN\<close> when it spells none. A JavaScript number is \<^verbatim>\<open>NaN\<close>, an
  infinity, or a finite double, which is a real number.
\<close>

datatype js_number = NaN | NegInf | PosInf | Num real

text \<open>
  The comparison \<^verbatim>\<open>active >= max\<close> of a counter with a number: false when \<^verbatim>\<open>max\<close> is
  \<^verbatim>\<open>NaN\<close>.
\<close>

definition js_ge :: "nat \<Rightarrow> js_number \<Rightarrow> bool" where
  "js_ge a m = (case m of NaN \<Rightarrow> False | NegInf \<Rightarrow> True | PosInf \<Rightarrow> False | Num x \<Rightarrow> x \<le> real a)"

text \<open>\<^verbatim>\<open>Math.max(1, x)\<close>, which is \<^verbatim>\<open>NaN\<close> when \<^verbatim>\<open>x\<close> is.\<close>

definition Math_max1 :: "js_number \<Rightarrow> js_number" where
  "Math_max1 x = (case x of NaN \<Rightarrow> NaN | NegInf \<Rightarrow> Num 1 | PosInf \<Rightarrow> PosInf | Num r \<Rightarrow> Num (max 1 r))"

text \<open>
  JavaScript runs one piece of code at a time, so the limiter is a state machine: a task
  is submitted (\<^verbatim>\<open>limit(fn)\<close>), or the promise of a running task settles and the
  \<^verbatim>\<open>finally\<close> block of its job runs. Tasks are numbered in the order of submission; \<open>'r\<close>
  is the type of results (values and errors).
\<close>

datatype 'r event = Submit | Settle nat 'r

text \<open>
  The variables \<^verbatim>\<open>active\<close> and \<^verbatim>\<open>queue\<close> of the closure, and what is observed of the
  tasks: how many were submitted, which were started (in that order), which are running,
  and the results handed to \<^verbatim>\<open>resolve\<close> or \<^verbatim>\<open>reject\<close>. The counter \<^verbatim>\<open>active\<close> starts at
  0 and moves by \<^verbatim>\<open>active++\<close> and \<^verbatim>\<open>active--\<close> only, so it is a natural number.
\<close>

record 'r limiter =
  active :: nat
  queue :: "nat list"
  submitted :: nat
  started :: "nat list"
  running :: "nat list"
  delivered :: "(nat \<times> 'r) list"

text \<open>\<^verbatim>\<open>next()\<close>; the parameter \<^verbatim>\<open>max\<close> is \<open>max'\<close> here.\<close>

definition next_job :: "js_number \<Rightarrow> 'r limiter \<Rightarrow> 'r limiter" where
  "next_job max' st =
     (if js_ge (active st) max' then st
      else (case queue st of
              [] \<Rightarrow> st
            | job # q \<Rightarrow>
                st\<lparr>queue := q, active := active st + 1,
                   started := started st @ [job], running := running st @ [job]\<rparr>))"

text \<open>\<^verbatim>\<open>limit(fn)\<close>: the job is pushed and \<^verbatim>\<open>next()\<close> is called.\<close>

definition limit :: "js_number \<Rightarrow> 'r limiter \<Rightarrow> 'r limiter" where
  "limit max' st =
     next_job max' (st\<lparr>queue := queue st @ [submitted st], submitted := submitted st + 1\<rparr>)"

text \<open>
  The rest of a job once \<^verbatim>\<open>await fn()\<close> has settled with \<open>r\<close>: the result goes to the
  caller, then \<^verbatim>\<open>active--; next()\<close>.
\<close>

definition settle :: "js_number \<Rightarrow> nat \<Rightarrow> 'r \<Rightarrow> 'r limiter \<Rightarrow> 'r limiter" where
  "settle max' job r st =
     next_job max' (st\<lparr>delivered := delivered st @ [(job, r)], active := active st - 1,
                       running := removeAll job (running st)\<rparr>)"

text \<open>Only a running task can settle.\<close>

fun limiter_step :: "js_number \<Rightarrow> 'r limiter \<Rightarrow> 'r event \<Rightarrow> 'r limiter" where
  "limiter_step max' st Submit = limit max' st"
| "limiter_step max' st (Settle job r) = (if job \<in> set (running st) then settle max' job r st else st)"

definition createLimiter :: "'r limiter" where
  "createLimiter = \<lparr>active = 0, queue = [], submitted = 0, started = [], running = [], delivered = []\<rparr>"

definition limiter_run :: "js_number \<Rightarrow> 'r event list \<Rightarrow> 'r limiter" where
  "limiter_run max' evs = foldl (limiter_step max') createLimiter evs"

text \<open>
  The number of tasks the guard of \<^verbatim>\<open>next\<close> lets run at once: the least count \<open>a\<close> at
  which \<^verbatim>\<open>a >= max\<close> holds, which is \<open>\<lceil>max\<rceil>\<close> for a finite \<open>max > 0\<close>; there is none
  (\<open>None\<close>) when \<^verbatim>\<open>max\<close> is \<^verbatim>\<open>NaN\<close> or \<^verbatim>\<open>Infinity\<close>.
\<close>

definition capacity :: "js_number \<Rightarrow> nat option" where
  "capacity m = (case m of NaN \<Rightarrow> None | NegInf \<Rightarrow> Some 0 | PosInf \<Rightarrow> None | Num x \<Rightarrow> Some (nat \<lceil>x\<rceil>))"

text \<open>The invariant of a limiter that lets \<open>cap\<close> tasks run at once.\<close>

definition limiter_inv :: "nat \<Rightarrow> 'r limiter \<Rightarrow> bool" where
  "limiter_inv cap st \<longleftrightarrow>
     active st = length (running st) \<and> distinct (running st) \<and> set (running st) \<subseteq> set (started st)
     \<and> started st @ queue st = [0..<submitted st]
     \<and> length (started st) = length (delivered st) + active st
     \<and> length (started st) = min (submitted st) (cap + length (delivered st))"

text \<open>The invariant of a limiter whose guard never holds.\<close>

definition unlimited_inv :: "'r limiter \<Rightarrow> bool" where
  "unlimited_inv st \<longleftrightarrow>
     active st = length (running st) \<and> distinct (running st) \<and> set (running st) \<subseteq> set (started st)
     \<and> queue st = [] \<and> started st = [0..<submitted st]
     \<and> length (started st) = length (delivered st) + active st"

definition five_tasks :: "nat event list" where
  "five_tasks = [Submit, Submit, Submit, Submit, Submit, Settle 1 10]"

subsection \<open>The OCR sub-pipeline (\<^verbatim>\<open>ocrPdfToText\<close>)\<close>

text \<open>
  The template literal \<^verbatim>\<open>${pageNum}\<close> for a page number: its decimal digits (page numbers
  stay far below \<open>10^21\<close>, where JavaScript switches to exponents).
\<close>

function decimal :: "nat \<Rightarrow> jsstring" where
  "decimal n = (if n < 10 then [0x30 + of_nat n] else decimal (n div 10) @ [0x30 + of_nat (n mod 10)])"
  by pat_completeness auto
termination
  by (relation "measure id") auto

declare decimal.simps [simp del]

text \<open>The text put before the recognized text of a page: \<^verbatim>\<open>\n\n[PAGE ${pageNum}]\n\<close>.\<close>

definition page_marker :: "nat \<Rightarrow> jsstring" where
  "page_marker pageNum = [0x0A, 0x0A] @ page_tag @ [0x20] @ decimal pageNum @ [0x5D, 0x0A]"

text \<open>
  The loop over the page images, sorted by page number: \<open>images\<close> holds the page number of
  each image and the text the OCR engine recognizes on it (\<^verbatim>\<open>data.text || ""\<close>).
\<close>

fun ocr_loop :: "jsstring \<Rightarrow> (nat \<times> jsstring) list \<Rightarrow> jsstring" where
  "ocr_loop fullText [] = fullText"
| "ocr_loop fullText ((pageNum, recognized) # images) =
     ocr_loop (fullText @ page_marker pageNum @ recognized) images"

text \<open>The result \<^verbatim>\<open>{ text: fullText.trim(), pages: images.length }\<close>, as a pair.\<close>

definition ocrPdfToText :: "(nat \<times> jsstring) list \<Rightarrow> jsstring \<times> nat" where
  "ocrPdfToText images = (trim (ocr_loop [] images), length images)"

text \<open>
  Vocabulary for the round trip through \<^verbatim>\<open>splitByPages\<close>. A text has no marker when the
  pattern matches at none of its positions. \<open>at_boundary\<close> holds of the text that follows a
  page in the OCR text: nothing, or the next marker. \<open>ocr_body\<close> is the text appended by the
  loop, \<open>parts_of\<close> the pieces into which it is split, \<open>page_record\<close> the record expected
  for a page.
\<close>

definition at_boundary :: "jsstring \<Rightarrow> bool" where
  "at_boundary w \<longleftrightarrow> w = [] \<or> (\<exists>w'. w = 0x0A # 0x0A # 0x5B # w')"

definition no_marker :: "jsstring \<Rightarrow> bool" where
  "no_marker p \<longleftrightarrow> list_all (\<lambda>q. match_marker q = None) (suffixes p)"

definition ocr_body :: "(nat \<times> jsstring) list \<Rightarrow> jsstring" where
  "ocr_body images = concat (map (\<lambda>(n, t). page_marker n @ t) images)"

fun parts_of :: "jsstring \<Rightarrow> (nat \<times> jsstring) list \<Rightarrow> jsstring list" where
  "parts_of acc [] = [acc]"
| "parts_of acc ((n, t) # images) = (acc @ [0x0A, 0x0A]) # decimal n # parts_of (0x0A # t) images"

definition page_record :: "nat \<times> jsstring \<Rightarrow> PageRecord" where
  "page_record x = \<lparr>page = fst x, content = trim (snd x)\<rparr>"

text \<open>Three sample pages: \<^verbatim>\<open>" ab\n"\<close>, \<^verbatim>\<open>"[PAGE]1"\<close> and \<^verbatim>\<open>"c d"\<close>.\<close>

definition three_pages :: "jsstring list" where
  "three_pages = [[0x20, 0x61, 0x62, 0x0A], [0x5B, 0x50, 0x41, 0x47, 0x45, 0x5D, 0x31], [0x63, 0x20, 0x64]]"

subsection \<open>The driver (\<^verbatim>\<open>main\<close>)\<close>

text \<open>An embedding vector.\<close>

type_synonym vector = "real list"

text \<open>
  A file of the directory listing with what the outside world returns for it: \<open>pdf_native\<close>
  is the result of \<^verbatim>\<open>parsePdf\<close>, \<open>pdf_scanned\<close> the page images with their recognized text
  that \<^verbatim>\<open>ocrPdfToText\<close> would work on (or the failure of the rasterizer or the engine).
\<close>

record pdf_file =
  pdf_name :: jsstring
  pdf_native :: "failure + jsstring option"
  pdf_scanned :: "failure + (nat \<times> jsstring) list"

text \<open>A row of \<^verbatim>\<open>rag_chunks\<close> (the column \<^verbatim>\<open>page\<close> is \<open>row_page\<close> here).\<close>

record row =
  source :: jsstring
  row_page :: nat
  chunk_index :: nat
  chunk :: jsstring
  embedding :: vector

text \<open>
  What a run does to the outside, in order: an embedding that was returned for a chunk,
  an \<^verbatim>\<open>INSERT\<close> that was executed.
\<close>

datatype io = Embedded jsstring | Inserted row

text \<open>
  The state of a run: the rows in the table, the log, the number of calls of \<^verbatim>\<open>embed\<close>,
  and the failure that aborted the run, if any.
\<close>

record ingest =
  rows :: "row list"
  io_log :: "io list"
  embeds :: nat
  failed :: "failure option"

text \<open>
  \<^verbatim>\<open>f.toLowerCase().endsWith(".pdf")\<close>: only the last four characters matter, and only the
  letters P, D and F are mapped to p, d and f.
\<close>

definition lower_ascii :: "jschar \<Rightarrow> jschar" where
  "lower_ascii c = (if 0x41 \<le> c \<and> c \<le> 0x5A then c + 0x20 else c)"

definition is_pdf :: "jsstring \<Rightarrow> bool" where
  "is_pdf f \<longleftrightarrow> 4 \<le> length f \<and> map lower_ascii (drop (length f - 4) f) = [0x2E, 0x70, 0x64, 0x66]"

text \<open>
  The loop over the chunks of a page, from index \<open>idx\<close>. \<open>embed' k ch\<close> is what the call
  number \<open>k\<close> of \<^verbatim>\<open>embed\<close> returns for the chunk \<open>ch\<close> or the failure it throws (after its
  own limiter, pacing and retries); \<^verbatim>\<open>toVectorLiteral\<close> throws on an empty vector;
  \<open>accepts r\<close> tells whether the database executes the \<^verbatim>\<open>INSERT\<close> of the row \<open>r\<close>. Every
  call is awaited before the next statement runs.
\<close>

fun insert_chunks ::
  "(nat \<Rightarrow> jsstring \<Rightarrow> failure + vector) \<Rightarrow> (row \<Rightarrow> bool) \<Rightarrow> jsstring \<Rightarrow> nat \<Rightarrow> nat \<Rightarrow> jsstring list
     \<Rightarrow> ingest \<Rightarrow> ingest" where
  "insert_chunks embed' accepts file p idx [] st = st"
| "insert_chunks embed' accepts file p idx (ch # chunks) st =
     (case embed' (embeds st) ch of
        Inl f \<Rightarrow> st\<lparr>embeds := embeds st + 1, failed := Some f\<rparr>
      | Inr vec \<Rightarrow>
          if vec = [] then
            st\<lparr>embeds := embeds st + 1, io_log := io_log st @ [Embedded ch], failed := Some EmptyVector\<rparr>
          else
            (let r = \<lparr>source = file, row_page = p, chunk_index = idx, chunk = ch, embedding = vec\<rparr>
             in if \<not> accepts r then
                  st\<lparr>embeds := embeds st + 1, io_log := io_log st @ [Embedded ch],
                     failed := Some InsertFailed\<rparr>
                else insert_chunks embed' accepts file p (idx + 1) chunks
                       (st\<lparr>embeds := embeds st + 1, io_log := io_log st @ [Embedded ch, Inserted r],
                           rows := rows st @ [r]\<rparr>)))"

text \<open>
  The loop over the pages of a file. A call of \<^verbatim>\<open>chunkText\<close> that does not return leaves
  the run without a result (\<open>None\<close>).
\<close>

fun ingest_pages ::
  "(nat \<Rightarrow> jsstring \<Rightarrow> failure + vector) \<Rightarrow> (row \<Rightarrow> bool) \<Rightarrow> jsstring \<Rightarrow> PageRecord list
     \<Rightarrow> ingest \<Rightarrow> ingest option" where
  "ingest_pages embed' accepts file [] st = Some st"
| "ingest_pages embed' accepts file (p # pages) st =
     (case chunkText (content p) 900 150 of
        None \<Rightarrow> None
      | Some chunks \<Rightarrow>
          (let st' = insert_chunks embed' accepts file (page p) 0 chunks st
           in if failed st' \<noteq> None then Some st'
              else ingest_pages embed' accepts file pages st'))"

text \<open>The pages of an extracted text, and the extraction of a file.\<close>

definition pages_of :: "extraction \<Rightarrow> PageRecord list" where
  "pages_of ex =
     (if usedOcr ex then splitByPages (ex_text ex) else [\<lparr>page = 1, content = ex_text ex\<rparr>])"

definition extract_file :: "pdf_file \<Rightarrow> failure + extraction" where
  "extract_file f =
     extractTextSmart (pdf_native f)
       (case pdf_scanned f of Inl e \<Rightarrow> Inl e | Inr images \<Rightarrow> Inr (fst (ocrPdfToText images)))"

text \<open>The loop over the files.\<close>

fun ingest_files ::
  "(nat \<Rightarrow> jsstring \<Rightarrow> failure + vector) \<Rightarrow> (row \<Rightarrow> bool) \<Rightarrow> pdf_file list \<Rightarrow> ingest
     \<Rightarrow> ingest option" where
  "ingest_files embed' accepts [] st = Some st"
| "ingest_files embed' accepts (f # files) st =
     (case extract_file f of
        Inl e \<Rightarrow> Some (st\<lparr>failed := Some e\<rparr>)
      | Inr ex \<Rightarrow>
          (case ingest_pages embed' accepts (pdf_name f) (pages_of ex) st of
             None \<Rightarrow> None
           | Some st' \<Rightarrow>
               if failed st' \<noteq> None then Some st'
               else ingest_files embed' accepts files st'))"

text \<open>
  \<^verbatim>\<open>main\<close> from the directory listing on (the connection to the database and the schema
  are set up before).
\<close>

definition main ::
  "(nat \<Rightarrow> jsstring \<Rightarrow> failure + vector) \<Rightarrow> (row \<Rightarrow> bool) \<Rightarrow> pdf_file list \<Rightarrow> ingest option" where
  "main embed' accepts listing =
     (let files = filter (\<lambda>f. is_pdf (pdf_name f)) listing;
          st = \<lparr>rows = [], io_log = [], embeds = 0, failed = None\<rparr>
      in if files = [] then Some st else ingest_files embed' accepts files st)"

text \<open>
  Vocabulary for the order of persistence. The key of a row is \<open>(source, page,
  chunk_index, chunk)\<close>. The plan of a listing is the list of the keys in the order file,
  page, chunk index, with the chunks of each page numbered from 0. \<open>extends st st' ks\<close>: the
  state \<open>st'\<close> has, beyond \<open>st\<close>, new rows whose keys are a prefix of \<open>ks\<close> (all of \<open>ks\<close>
  when \<open>st'\<close> has not failed), and the log has grown by one pair "embedded, inserted" per new
  row, followed by at most one pending embedding.
\<close>

type_synonym row_key = "jsstring \<times> nat \<times> nat \<times> jsstring"

definition row_key :: "row \<Rightarrow> row_key" where
  "row_key r = (source r, row_page r, chunk_index r, chunk r)"

definition keys_from :: "jsstring \<Rightarrow> nat \<Rightarrow> nat \<Rightarrow> jsstring list \<Rightarrow> row_key list" where
  "keys_from file p idx chunks = map (\<lambda>(i, ch). (file, p, i, ch)) (enumerate idx chunks)"

definition page_plan :: "jsstring \<Rightarrow> PageRecord \<Rightarrow> row_key list" where
  "page_plan file p =
     keys_from file (page p) 0
       (emitted (trim (collapse_ws (content p))) 900
          (offsets (int (length (trim (collapse_ws (content p))))) 750 0))"

definition file_plan :: "pdf_file \<Rightarrow> row_key list" where
  "file_plan f =
     (case extract_file f of
        Inl e \<Rightarrow> []
      | Inr ex \<Rightarrow> concat (map (page_plan (pdf_name f)) (pages_of ex)))"

definition plan :: "pdf_file list \<Rightarrow> row_key list" where
  "plan listing = concat (map file_plan (filter (\<lambda>f. is_pdf (pdf_name f)) listing))"

definition io_of :: "row \<Rightarrow> io list" where
  "io_of r = [Embedded (chunk r), Inserted r]"

definition extends :: "ingest \<Rightarrow> ingest \<Rightarrow> row_key list \<Rightarrow> bool" where
  "extends st st' ks \<longleftrightarrow>
     (\<exists>new pending.
        rows st' = rows st @ new
      \<and> prefix (map row_key new) ks
      \<and> io_log st' = io_log st @ concat (map io_of new) @ pending
      \<and> (pending = [] \<or> (\<exists>ch. pending = [Embedded ch]))
      \<and> (failed st' = None \<longrightarrow> map row_key new = ks \<and> pending = []))"

text \<open>A sample listing: \<^verbatim>\<open>a.pdf\<close>, \<^verbatim>\<open>c.txt\<close> and \<^verbatim>\<open>b.PDF\<close>.\<close>

definition page_one :: jsstring where
  "page_one = replicate 30 0x48 @ [0x20] @ replicate 35 0x77"

definition sample_listing :: "pdf_file list" where
  "sample_listing =
     [\<lparr>pdf_name = [0x61, 0x2E, 0x70, 0x64, 0x66], pdf_native = Inr (Some [0x0A, 0x0A]),
       pdf_scanned = Inr [(1, page_one @ [0x0A]), (2, replicate 40 0x78)]\<rparr>,
      \<lparr>pdf_name = [0x63, 0x2E, 0x74, 0x78, 0x74], pdf_native = Inl ParseFailed, pdf_scanned = Inl OcrFailed\<rparr>,
      \<lparr>pdf_name = [0x62, 0x2E, 0x50, 0x44, 0x46], pdf_native = Inr None,
       pdf_scanned = Inr [(1, [0x20]), (2, replicate 70 0x6E)]\<rparr>]"

definition sample_rows :: "row list" where
  "sample_rows =
     [\<lparr>source = [0x61, 0x2E, 0x70, 0x64, 0x66], row_page = 1, chunk_index = 0, chunk = page_one,
       embedding = [1]\<rparr>,
      \<lparr>source = [0x62, 0x2E, 0x50, 0x44, 0x46], row_page = 2, chunk_index = 0,
       chunk = replicate 70 0x6E, embedding = [1]\<rparr>]"

definition sample_embed :: "nat \<Rightarrow> jsstring \<Rightarrow> failure + vector" where
  "sample_embed k ch = Inr [1]"

definition accept_all :: "row \<Rightarrow> bool" where
  "accept_all r = True"

section \<open>Properties\<close>

subsection \<open>The chunker\<close>

lemma length_trim_le: "length (trim s) \<le> length s"
proof -
  have "length (trim s) \<le> length (dropWhile is_ws s)"
    unfolding trim_def using length_dropWhile_le [of is_ws "rev (dropWhile is_ws s)"] by simp
  also have "\<dots> \<le> length s" by (rule length_dropWhile_le)
  finally show ?thesis .
qed

lemma trim_fixed: "s = [] \<or> (\<not> is_ws (hd s) \<and> \<not> is_ws (last s)) \<Longrightarrow> trim s = s"
  by (cases s) (auto simp: trim_def hd_rev dropWhile_eq_self_iff split: if_splits)

lemma trim_ends: "trim s = [] \<or> (\<not> is_ws (hd (trim s)) \<and> \<not> is_ws (last (trim s)))"
proof (cases "trim s = []")
  case False
  let ?d = "dropWhile is_ws s"
  let ?r = "dropWhile is_ws (rev ?d)"
  have r: "?r \<noteq> []" using False by (simp add: trim_def)
  then have hr: "\<not> is_ws (hd ?r)" by (rule hd_dropWhile)
  have "last (trim s) = hd ?r" using r by (simp add: trim_def last_rev)
  with hr have l: "\<not> is_ws (last (trim s))" by simp
  have d: "?d \<noteq> []"
  proof
    assume "?d = []"
    with r show False by simp
  qed
  then have hd: "\<not> is_ws (hd ?d)" by (rule hd_dropWhile)
  have "?d = rev ?r @ rev (takeWhile is_ws (rev ?d))"
    by (metis rev_append rev_rev_ident takeWhile_dropWhile_id)
  then have "hd ?d = hd (rev ?r)" using r by (metis hd_append2 rev_is_Nil_conv)
  with hd have "\<not> is_ws (hd (trim s))" by (simp add: trim_def)
  with l show ?thesis by simp
qed simp

lemma trim_idem: "trim (trim s) = trim s"
  using trim_ends [of s] by (rule trim_fixed)

lemma length_collapse_ws_le: "length (collapse_ws s) \<le> length s"
proof (induction s rule: collapse_ws.induct)
  case 1 show ?case by simp
next
  case (2 c cs)
  show ?case
  proof (cases "is_ws c")
    case True
    with 2 have "length (collapse_ws (dropWhile is_ws cs)) \<le> length (dropWhile is_ws cs)" by simp
    also have "\<dots> \<le> length cs" by (rule length_dropWhile_le)
    finally show ?thesis using True by simp
  next
    case False with 2 show ?thesis by simp
  qed
qed

lemma chunk_loop_closed:
  "0 < chunkSize - overlap \<Longrightarrow>
   chunk_loop clean chunkSize overlap i chunks =
     Some (chunks @ emitted clean chunkSize (offsets (int (length clean)) (chunkSize - overlap) i))"
proof (induction "int (length clean)" "chunkSize - overlap" i arbitrary: chunks rule: offsets.induct)
  case (1 i)
  show ?case
  proof (cases "i < int (length clean)")
    case True
    with 1 show ?thesis
      by (subst chunk_loop.simps, subst offsets.simps) (simp add: emitted_def window_def Let_def)
  next
    case False
    then show ?thesis
      by (subst chunk_loop.simps, subst offsets.simps) (simp add: emitted_def)
  qed
qed

lemma chunk_loop_diverges:
  assumes "chunk_loop clean chunkSize overlap i chunks = Some y"
  shows "\<not> (chunkSize \<le> overlap \<and> i < int (length clean))"
  using assms
proof (induction rule: chunk_loop.raw_induct [rotated 1, consumes 1])
  case (1 chunk_loop' clean chunkSize overlap i chunks y)
  show ?case
  proof
    assume a: "chunkSize \<le> overlap \<and> i < int (length clean)"
    then have "i + (chunkSize - overlap) < int (length clean)" by simp
    with a 1 show False by (auto simp: Let_def split: if_splits)
  qed
qed

lemma offsets_ge: "x \<in> set (offsets len step i) \<Longrightarrow> i \<le> x \<and> x < len"
proof (induction len step i rule: offsets.induct)
  case (1 len step i)
  from "1.prems" have c: "0 < step \<and> i < len"
    by (subst (asm) offsets.simps) (auto split: if_splits)
  from "1.prems" c have "x = i \<or> x \<in> set (offsets len step (i + step))"
    by (subst (asm) offsets.simps) auto
  with 1 c show ?case by auto
qed

lemma offsets_closed:
  "0 < step \<Longrightarrow>
   offsets len step i = map (\<lambda>k. i + int k * step) [0..<nat ((len - i + step - 1) div step)]"
proof (induction len step i rule: offsets.induct)
  case (1 len step i)
  show ?case
  proof (cases "i < len")
    case True
    let ?n = "nat ((len - (i + step) + step - 1) div step)"
    have "len - i + step - 1 = (len - (i + step) + step - 1) + step" by simp
    then have "(len - i + step - 1) div step = ((len - (i + step) + step - 1) + step) div step"
      by (rule arg_cong)
    also have "\<dots> = (len - (i + step) + step - 1) div step + 1"
      using \<open>0 < step\<close> by (intro div_add_self2) simp
    finally have "(len - i + step - 1) div step = (len - (i + step) + step - 1) div step + 1" .
    moreover have "0 \<le> (len - (i + step) + step - 1) div step"
      using True \<open>0 < step\<close> by (simp add: pos_imp_zdiv_nonneg_iff)
    ultimately have n: "nat ((len - i + step - 1) div step) = Suc ?n" by simp
    have "offsets len step i = i # offsets len step (i + step)"
      using True \<open>0 < step\<close> by (subst offsets.simps) simp
    also have "offsets len step (i + step) = map (\<lambda>k. i + step + int k * step) [0..<?n]"
      using 1 True by simp
    also have "i # map (\<lambda>k. i + step + int k * step) [0..<?n]
        = map (\<lambda>k. i + int k * step) [0..<Suc ?n]"
      by (simp add: upt_conv_Cons map_Suc_upt [symmetric] algebra_simps del: upt_Suc)
    finally show ?thesis using n by simp
  next
    case False
    then have "(len - i + step - 1) div step \<le> (step - 1) div step"
      using \<open>0 < step\<close> by (intro zdiv_mono1) simp_all
    also have "(step - 1) div step = 0"
      using \<open>0 < step\<close> by (simp add: div_pos_pos_trivial)
    finally have "(len - i + step - 1) div step \<le> 0" .
    with False show ?thesis by (subst offsets.simps) simp
  qed
qed

lemma length_window_le:
  "0 \<le> i \<Longrightarrow> int (length (window clean chunkSize i)) \<le> int (length clean) - i \<or> length (window clean chunkSize i) = 0"
  by (auto simp: window_def js_slice_def Let_def min_def max_def)

lemma chunkText_closed:
  "overlap < chunkSize \<Longrightarrow>
   chunkText T chunkSize overlap =
     Some (emitted (trim (collapse_ws T)) chunkSize
        (offsets (int (length (trim (collapse_ws T)))) (chunkSize - overlap) 0))"
  by (simp add: chunkText_def chunk_loop_closed)

lemma trim_collapse_single: "\<not> is_ws c \<Longrightarrow> trim (collapse_ws [c]) = [c]"
  by (simp add: trim_def)

text \<open>
  Claim C10. \<^verbatim>\<open>chunkText\<close> returns on every text exactly when \<open>overlap < chunkSize\<close>: then
  the offset grows by \<open>chunkSize - overlap > 0\<close> in each iteration; in particular it returns
  for the driver's arguments 900 and 150. When \<open>chunkSize \<le> overlap\<close> and the normalized
  text is not empty, the call never returns.
\<close>

theorem chunkText_terminates_iff:
  "((\<forall>T. \<exists>chunks. chunkText T chunkSize overlap = Some chunks) \<longleftrightarrow> overlap < chunkSize)
   \<and> (\<exists>chunks. chunkText T 900 150 = Some chunks)
   \<and> (chunkSize \<le> overlap \<and> trim (collapse_ws T) \<noteq> [] \<longrightarrow> chunkText T chunkSize overlap = None)"
proof -
  have div: "chunkText U chunkSize overlap = None"
    if "chunkSize \<le> overlap" "trim (collapse_ws U) \<noteq> []" for U
  proof (cases "chunkText U chunkSize overlap")
    case (Some y)
    then have "\<not> (chunkSize \<le> overlap \<and> 0 < int (length (trim (collapse_ws U))))"
      unfolding chunkText_def by (rule chunk_loop_diverges)
    with that show ?thesis by simp
  qed simp
  have a: "\<not> is_ws 0x61" by (simp add: is_ws_def)
  have "chunkText [0x61] chunkSize overlap = None" if "chunkSize \<le> overlap"
    using that div [of "[0x61]"] trim_collapse_single [OF a] by simp
  then have "overlap < chunkSize" if "\<forall>T. \<exists>chunks. chunkText T chunkSize overlap = Some chunks"
    using that by (metis not_le option.distinct(1))
  moreover have "\<exists>chunks. chunkText U chunkSize overlap = Some chunks" if "overlap < chunkSize" for U
    using that by (simp add: chunkText_closed)
  moreover have "\<exists>chunks. chunkText T 900 150 = Some chunks"
    by (simp add: chunkText_closed)
  ultimately show ?thesis using div by blast
qed

text \<open>The theorem at the driver's arguments, and at \<open>chunkSize = overlap = 150\<close>.\<close>

theorem chunkText_terminates_iff_witness:
  "(\<forall>T. \<exists>chunks. chunkText T 900 150 = Some chunks)
   \<and> \<not> (\<forall>T. \<exists>chunks. chunkText T 150 150 = Some chunks)
   \<and> (150::int) \<le> 150 \<and> trim (collapse_ws [0x61]) \<noteq> [] \<and> chunkText [0x61] 150 150 = None"
proof -
  have a: "\<not> is_ws 0x61" by (simp add: is_ws_def)
  have t: "trim (collapse_ws [0x61]) \<noteq> []" using trim_collapse_single [OF a] by simp
  from chunkText_terminates_iff [of 900 150 "[]"] have 1: "\<forall>T. \<exists>chunks. chunkText T 900 150 = Some chunks" by simp
  from chunkText_terminates_iff [of 150 150 "[0x61]"] t have 2:
    "\<not> (\<forall>T. \<exists>chunks. chunkText T 150 150 = Some chunks)" "chunkText [0x61] 150 150 = None" by simp_all
  from 1 2 t show ?thesis by simp
qed

lemma emitted_tail_empty:
  assumes "0 < step" "0 \<le> i" "int (length clean) \<le> i + 60"
  shows "emitted clean chunkSize (offsets (int (length clean)) step i) = []"
proof -
  have "\<not> 60 < length (trim (window clean chunkSize x))"
    if "x \<in> set (offsets (int (length clean)) step i)" for x
  proof -
    from that have x: "i \<le> x" by (simp add: offsets_ge)
    with assms have "0 \<le> x" by simp
    from length_window_le [OF this, of clean chunkSize] x assms
    have "length (window clean chunkSize x) \<le> 60" by auto
    with length_trim_le [of "window clean chunkSize x"] show ?thesis by simp
  qed
  then show ?thesis by (simp add: emitted_def filter_empty_conv)
qed

lemma window_share:
  assumes a0: "0 \<le> a" and ov: "0 \<le> overlap" "overlap < chunkSize"
    and k: "a + chunkSize \<le> int (length c)"
  shows "length (take (nat overlap) (window c chunkSize (a + (chunkSize - overlap)))) = nat overlap
       \<and> drop (nat (chunkSize - overlap)) (window c chunkSize a)
         = take (nat overlap) (window c chunkSize (a + (chunkSize - overlap)))"
proof -
  let ?step = "chunkSize - overlap"
  have w1: "window c chunkSize a = take (nat chunkSize) (drop (nat a) c)"
    using a0 k ov by (simp add: window_def js_slice_def Let_def min_def)
  have w2: "window c chunkSize (a + ?step) =
      take (nat (min (a + ?step + chunkSize) (int (length c)) - (a + ?step))) (drop (nat (a + ?step)) c)"
    using a0 k ov by (simp add: window_def js_slice_def Let_def min_def)
  have m: "nat overlap \<le> nat (min (a + ?step + chunkSize) (int (length c)) - (a + ?step))"
    using a0 k ov by (auto simp: min_def)
  have l: "nat overlap \<le> length (drop (nat (a + ?step)) c)"
    using a0 k ov by simp
  have "drop (nat ?step) (window c chunkSize a) = take (nat overlap) (drop (nat (a + ?step)) c)"
    using a0 ov by (simp add: w1 drop_take nat_add_distrib nat_diff_distrib add.commute)
  moreover have "take (nat overlap) (window c chunkSize (a + ?step))
      = take (nat overlap) (drop (nat (a + ?step)) c)"
    using m by (simp add: w2 min_absorb1)
  ultimately show ?thesis using l by simp
qed

text \<open>
  Claim C1 says that a text shorter than \<open>chunkSize\<close> gives at most one chunk. The window
  advances by \<open>chunkSize - overlap\<close>, not by \<open>chunkSize\<close>: 90 letters with \<open>chunkSize = 100\<close>
  and \<open>overlap = 80\<close> give two chunks, the whole text and its last 70 letters (the windows
  at 40, 60 and 80 are too short to be kept).
\<close>

theorem chunkText_one_chunk_counterexample:
  "int (length (replicate 90 (0x61 :: jschar))) < 100
   \<and> chunkText (replicate 90 0x61) 100 80 = Some [replicate 90 0x61, replicate 70 0x61]"
  by code_simp

text \<open>
  Claim C1, amended. For a text \<open>T\<close> with \<open>length T < chunkSize\<close> and \<open>overlap < chunkSize\<close>
  whose normalized form has at most \<open>chunkSize - overlap + 60\<close> characters, \<^verbatim>\<open>chunkText\<close>
  returns at most one chunk: the text with whitespace collapsed and trimmed when that has
  more than 60 characters, and nothing otherwise.
\<close>

theorem chunkText_short_text:
  assumes "int (length T) < chunkSize" and "overlap < chunkSize"
    and "int (length (trim (collapse_ws T))) \<le> chunkSize - overlap + 60"
  shows "chunkText T chunkSize overlap =
    Some (if 60 < length (trim (collapse_ws T)) then [trim (collapse_ws T)] else [])"
proof -
  let ?c = "trim (collapse_ws T)"
  let ?step = "chunkSize - overlap"
  have len: "int (length ?c) < chunkSize"
    using length_trim_le [of "collapse_ws T"] length_collapse_ws_le [of T] assms(1) by simp
  have step: "0 < ?step" using assms(2) by simp
  show ?thesis
  proof (cases "?c = []")
    case True
    then show ?thesis using assms(2) by (simp add: chunkText_closed offsets.simps emitted_def)
  next
    case False
    have w0: "window ?c chunkSize 0 = ?c"
      using len by (simp add: window_def js_slice_def Let_def min_def)
    have tl: "emitted ?c chunkSize (offsets (int (length ?c)) ?step (0 + ?step)) = []"
      using step assms(3) by (intro emitted_tail_empty) simp_all
    have "offsets (int (length ?c)) ?step 0 = 0 # offsets (int (length ?c)) ?step (0 + ?step)"
      using False step by (subst offsets.simps) simp
    then have "emitted ?c chunkSize (offsets (int (length ?c)) ?step 0)
        = (if 60 < length ?c then [?c] else [])"
      using tl w0 by (simp add: emitted_def trim_idem)
    then show ?thesis using assms(2) by (simp add: chunkText_closed)
  qed
qed

text \<open>The theorem at a text of 75 characters with the driver's arguments.\<close>

theorem chunkText_short_text_witness:
  "int (length ([0x20] @ replicate 40 0x61 @ [0x0A, 0x09] @ replicate 30 0x62 @ [0x20 :: jschar])) < 900
   \<and> (150 :: int) < 900
   \<and> int (length (trim (collapse_ws ([0x20] @ replicate 40 0x61 @ [0x0A, 0x09] @ replicate 30 0x62 @ [0x20]))))
       \<le> 900 - 150 + 60
   \<and> chunkText ([0x20] @ replicate 40 0x61 @ [0x0A, 0x09] @ replicate 30 0x62 @ [0x20]) 900 150
       = Some [replicate 40 0x61 @ [0x20] @ replicate 30 0x62]"
proof -
  let ?T = "[0x20] @ replicate 40 0x61 @ [0x0A, 0x09] @ replicate 30 0x62 @ [0x20 :: jschar]"
  have c: "trim (collapse_ws ?T) = replicate 40 0x61 @ [0x20] @ replicate 30 0x62"
    by code_simp
  have h1: "int (length ?T) < 900" by simp
  have h2: "(150 :: int) < 900" by simp
  have h3: "int (length (trim (collapse_ws ?T))) \<le> 900 - 150 + 60" unfolding c by simp
  from chunkText_short_text [OF h1 h2 h3] have "chunkText ?T 900 150 = Some [replicate 40 0x61 @ [0x20] @ replicate 30 0x62]"
    unfolding c by simp
  with h1 h2 h3 show ?thesis by blast
qed

text \<open>
  Claim C7 says that consecutive emitted chunks longer than 60 characters share exactly
  \<open>overlap\<close> characters. The last window is cut by the end of the text: 95 letters with
  \<open>chunkSize = 100\<close> and \<open>overlap = 70\<close> give a chunk of 95 and a chunk of 65 characters,
  which cannot share 70.
\<close>

theorem chunkText_share_counterexample:
  "chunkText (replicate 95 0x61) 100 70 = Some [replicate 95 0x61, replicate 65 0x61]
   \<and> 60 < length (replicate 95 (0x61 :: jschar)) \<and> 60 < length (replicate 65 (0x61 :: jschar))
   \<and> \<not> share_exactly 70 (replicate 95 0x61) (replicate 65 0x61)"
  by code_simp

text \<open>
  Claim C7, amended. When \<open>overlap < chunkSize\<close>, the windows start at the offsets
  \<open>0, chunkSize - overlap, 2 * (chunkSize - overlap), \<dots>\<close> below the length of the
  normalized text, and the result is the list of trimmed windows longer than 60 characters,
  in that order. When moreover \<open>0 \<le> overlap\<close>, every window that has its full size
  (\<open>k * (chunkSize - overlap) + chunkSize\<close> is at most the length) ends with the first
  \<open>overlap\<close> characters of the next window; this is a statement about the windows before
  trimming.
\<close>

theorem chunkText_windows:
  assumes "overlap < chunkSize"
  shows "chunkText T chunkSize overlap =
      Some (filter (\<lambda>p. 60 < length p)
        (map (\<lambda>k. trim (window (trim (collapse_ws T)) chunkSize (int k * (chunkSize - overlap))))
          [0..<nat ((int (length (trim (collapse_ws T))) + (chunkSize - overlap) - 1) div (chunkSize - overlap))]))
    \<and> (0 \<le> overlap \<longrightarrow> (\<forall>k. int k * (chunkSize - overlap) + chunkSize \<le> int (length (trim (collapse_ws T))) \<longrightarrow>
         length (take (nat overlap) (window (trim (collapse_ws T)) chunkSize (int (Suc k) * (chunkSize - overlap)))) = nat overlap
       \<and> drop (nat (chunkSize - overlap)) (window (trim (collapse_ws T)) chunkSize (int k * (chunkSize - overlap)))
         = take (nat overlap) (window (trim (collapse_ws T)) chunkSize (int (Suc k) * (chunkSize - overlap)))))"
proof -
  let ?c = "trim (collapse_ws T)"
  let ?step = "chunkSize - overlap"
  have step: "0 < ?step" using assms by simp
  have 1: "chunkText T chunkSize overlap =
      Some (filter (\<lambda>p. 60 < length p)
        (map (\<lambda>k. trim (window ?c chunkSize (int k * ?step)))
          [0..<nat ((int (length ?c) + ?step - 1) div ?step)]))"
    using assms by (simp add: chunkText_closed offsets_closed [OF step] emitted_def comp_def)
  have 2: "length (take (nat overlap) (window ?c chunkSize (int (Suc k) * ?step))) = nat overlap
       \<and> drop (nat ?step) (window ?c chunkSize (int k * ?step))
         = take (nat overlap) (window ?c chunkSize (int (Suc k) * ?step))"
    if k: "int k * ?step + chunkSize \<le> int (length ?c)" and ov: "0 \<le> overlap" for k
  proof -
    have a0: "0 \<le> int k * ?step" using step by simp
    have a': "int (Suc k) * ?step = int k * ?step + ?step" by (simp add: algebra_simps)
    show ?thesis unfolding a' using a0 ov assms k by (rule window_share)
  qed
  from 1 2 show ?thesis by blast
qed

text \<open>The theorem at 130 letters, \<open>chunkSize = 100\<close>, \<open>overlap = 70\<close> and the window \<open>k = 1\<close>.\<close>

theorem chunkText_windows_witness:
  "(70 :: int) < 100 \<and> (0 :: int) \<le> 70
   \<and> int 1 * (100 - 70) + 100 \<le> int (length (trim (collapse_ws (replicate 130 0x61))))
   \<and> chunkText (replicate 130 0x61) 100 70 = Some [replicate 100 0x61, replicate 100 0x61, replicate 70 0x61]
   \<and> drop (nat (100 - 70)) (window (trim (collapse_ws (replicate 130 0x61))) 100 (int 1 * (100 - 70)))
       = take (nat 70) (window (trim (collapse_ws (replicate 130 0x61))) 100 (int (Suc 1) * (100 - 70)))"
proof -
  let ?T = "replicate 130 (0x61 :: jschar)"
  have c: "trim (collapse_ws ?T) = ?T" by code_simp
  have h1: "(70 :: int) < 100" and h2: "(0 :: int) \<le> 70" by simp_all
  have h3: "int 1 * (100 - 70) + 100 \<le> int (length (trim (collapse_ws ?T)))" unfolding c by simp
  have e: "filter (\<lambda>p. 60 < length p)
        (map (\<lambda>k. trim (window ?T 100 (int k * (100 - 70))))
          [0..<nat ((int (length ?T) + (100 - 70) - 1) div (100 - 70))])
      = [replicate 100 0x61, replicate 100 0x61, replicate 70 0x61]"
    by code_simp
  note W = chunkText_windows [OF h1, of ?T]
  from W e have A: "chunkText ?T 100 70 = Some [replicate 100 0x61, replicate 100 0x61, replicate 70 0x61]"
    unfolding c by simp
  from W [THEN conjunct2, THEN mp, OF h2, THEN spec, of 1, THEN mp, OF h3]
  have B: "drop (nat (100 - 70)) (window (trim (collapse_ws ?T)) 100 (int 1 * (100 - 70)))
       = take (nat 70) (window (trim (collapse_ws ?T)) 100 (int (Suc 1) * (100 - 70)))"
    by (rule conjunct2)
  from h1 h2 h3 A B show ?thesis by blast
qed

subsection \<open>The retry policy\<close>

lemma withRetry_loop_skip:
  "j \<le> tries \<Longrightarrow> \<forall>k<j. rate_limited (fn k) \<Longrightarrow>
   withRetry_loop fn rnd tries 0 Undefined [] 0 =
   withRetry_loop fn rnd tries j (if j = 0 then Undefined else Thrown (projl (fn (j - 1))))
     (map (\<lambda>k. backoff k (rnd k) (projl (fn k))) [0..<j]) j"
proof (induction j)
  case 0
  show ?case by simp
next
  case (Suc j)
  then have r: "rate_limited (fn j)" and lt: "j < tries" by simp_all
  then obtain e where e: "fn j = Inl e" "isRateLimit e"
    by (auto simp: rate_limited_def split: sum.splits)
  have "withRetry_loop fn rnd tries 0 Undefined [] 0 =
      withRetry_loop fn rnd tries j (if j = 0 then Undefined else Thrown (projl (fn (j - 1))))
        (map (\<lambda>k. backoff k (rnd k) (projl (fn k))) [0..<j]) j"
    using Suc by simp
  also have "\<dots> = withRetry_loop fn rnd tries (Suc j) (Thrown e)
        (map (\<lambda>k. backoff k (rnd k) (projl (fn k))) [0..<j] @ [backoff j (rnd j) e]) (Suc j)"
    using lt e by (subst withRetry_loop.simps) simp
  finally show ?case using e by simp
qed

lemma withRetry_unfold:
  "withRetry fn rnd tries = withRetry_loop fn rnd (attempts tries) 0 Undefined [] 0"
  by (simp add: withRetry_def)

lemma withRetry_loop_slept_prefix:
  "\<exists>ys. slept (withRetry_loop fn rnd tries i lastErr zs n) = zs @ ys"
proof (induction fn rnd tries i lastErr zs n rule: withRetry_loop.induct)
  case (1 fn rnd tries i lastErr zs n)
  show ?case
  proof (cases "i < tries")
    case True
    show ?thesis
    proof (cases "fn n")
      case (Inl e)
      with True 1 show ?thesis by (subst withRetry_loop.simps) auto
    next
      case (Inr v)
      with True show ?thesis by (subst withRetry_loop.simps) simp
    qed
  next
    case False
    then show ?thesis by (subst withRetry_loop.simps) simp
  qed
qed

text \<open>
  Claim C3. When the invocation at loop index \<open>i\<close> fails with status 429 or 403 (all
  earlier ones having been rate limited, so that the loop gets there), the wait that follows
  is \<open>min 60000 (1000 * 2 ^ i)\<close> plus a jitter between 0 and 500 (an integer below 500),
  or the maximum of that and \<open>s * 1000\<close> when the failure carries a retry-after number
  \<open>s > 0\<close>. The random number lies in \<open>[0, 1)\<close>, as \<^verbatim>\<open>Math.random()\<close> does.
\<close>

theorem withRetry_wait:
  assumes "i < attempts tries" and "\<forall>k<i. rate_limited (fn k)"
    and "fn i = Inl e" and "status e = Some 429 \<or> status e = Some 403"
    and "0 \<le> rnd i" and "rnd i < 1"
  shows "i < length (slept (withRetry fn rnd tries))
    \<and> 0 \<le> \<lfloor>rnd i * 500\<rfloor> \<and> \<lfloor>rnd i * 500\<rfloor> < 500
    \<and> slept (withRetry fn rnd tries) ! i =
        (let computed = min 60000 (1000 * 2 ^ i) + of_int \<lfloor>rnd i * 500\<rfloor>
         in case retry_after e of
              Seconds s \<Rightarrow> if 0 < s then max computed (s * 1000) else computed
            | _ \<Rightarrow> computed)"
proof -
  have r: "rate_limited (fn i)" using assms(3,4) by (simp add: rate_limited_def isRateLimit_def)
  with assms(2) have all: "\<forall>k<Suc i. rate_limited (fn k)" by (simp add: less_Suc_eq)
  from assms(1) have le: "Suc i \<le> attempts tries" by simp
  let ?zs = "map (\<lambda>k. backoff k (rnd k) (projl (fn k))) [0..<Suc i]"
  have run: "withRetry fn rnd tries =
      withRetry_loop fn rnd (attempts tries) (Suc i) (Thrown (projl (fn i))) ?zs (Suc i)"
    unfolding withRetry_unfold using withRetry_loop_skip [OF le all, of rnd] by simp
  from withRetry_loop_slept_prefix [of fn rnd "attempts tries" "Suc i" "Thrown (projl (fn i))" ?zs "Suc i"]
  obtain ys where ys: "slept (withRetry fn rnd tries) = ?zs @ ys" unfolding run by blast
  have len: "i < length (slept (withRetry fn rnd tries))" unfolding ys by simp
  have "slept (withRetry fn rnd tries) ! i = ?zs ! i"
    unfolding ys by (simp add: nth_append del: upt_Suc map_append)
  also have "\<dots> = backoff i (rnd i) e"
    using assms(3) by (simp add: nth_append)
  finally have nth: "slept (withRetry fn rnd tries) ! i = backoff i (rnd i) e" .
  have j0: "0 \<le> \<lfloor>rnd i * 500\<rfloor>" using assms(5) by simp
  have j1: "\<lfloor>rnd i * 500\<rfloor> < 500" using assms(6) by (simp add: floor_less_iff)
  from len j0 j1 nth show ?thesis by (simp add: backoff_def)
qed

text \<open>
  The theorem at the second failure (index 1) of an operation that is rate limited twice
  with a retry-after of 5 seconds: the computed delay is 2250, the wait 5000.
\<close>

theorem withRetry_wait_witness:
  "(1 :: nat) < attempts None
   \<and> rate_limited (flaky 0)
   \<and> flaky 1 = Inl limited429
   \<and> status limited429 = Some 429 \<and> (0 :: real) \<le> 1 / 2 \<and> (1 / 2 :: real) < 1
   \<and> slept (withRetry flaky (\<lambda>k. 1 / 2) None) ! 1 = 5000"
proof -
  have h1: "(1 :: nat) < attempts None" by (simp add: attempts_def)
  have h2: "\<forall>k<1. rate_limited (flaky k)"
    by (simp add: rate_limited_def isRateLimit_def limited429_def flaky_def)
  have h3: "flaky 1 = Inl limited429" by (simp add: flaky_def)
  have h4: "status limited429 = Some 429 \<or> status limited429 = Some 403" by (simp add: limited429_def)
  have h5: "(0 :: real) \<le> (\<lambda>k :: nat. 1 / 2) 1" and h6: "(\<lambda>k :: nat. 1 / 2 :: real) 1 < 1" by simp_all
  from withRetry_wait [where rnd = "\<lambda>k. 1 / 2", OF h1 h2 h3 h4 h5 h6]
  have "slept (withRetry flaky (\<lambda>k. 1 / 2) None) ! 1 = 5000"
    by (simp add: limited429_def)
  with h1 h2 h3 show ?thesis by (simp add: limited429_def)
qed



subsection \<open>The text extractor\<close>

text \<open>
  Claim C6 says that a long native text is returned unmodified. It is returned trimmed: a
  line feed followed by 300 letters comes back as the 300 letters.
\<close>

theorem extractTextSmart_counterexample:
  "extractTextSmart (Inr (Some padded_native)) (Inr [0x6F])
     = Inr \<lparr>ex_text = replicate 300 0x61, usedOcr = False\<rparr>
   \<and> replicate 300 0x61 \<noteq> padded_native"
  by code_simp

text \<open>
  Claim C6, amended. \<^verbatim>\<open>extractTextSmart\<close> trims the native text; when fewer than 300
  characters are left it returns the output of the OCR path with \<open>usedOcr = True\<close>;
  otherwise it returns the trimmed native text with \<open>usedOcr = False\<close>, without running
  the OCR path: this is the original text exactly when that has no whitespace at either
  end.
\<close>

theorem extractTextSmart_result:
  "(length (trim native) < 300 \<longrightarrow>
      extractTextSmart (Inr (Some native)) (Inr ocr_text) = Inr \<lparr>ex_text = ocr_text, usedOcr = True\<rparr>)
   \<and> (300 \<le> length (trim native) \<longrightarrow>
      extractTextSmart (Inr (Some native)) ocr = Inr \<lparr>ex_text = trim native, usedOcr = False\<rparr>)
   \<and> (300 \<le> length (trim native) \<and> trim native = native \<longrightarrow>
      extractTextSmart (Inr (Some native)) ocr = Inr \<lparr>ex_text = native, usedOcr = False\<rparr>)"
proof -
  have "extractTextSmart (Inr (Some native)) ocr = Inr \<lparr>ex_text = trim native, usedOcr = False\<rparr>"
    if "300 \<le> length (trim native)"
    using that by (simp add: extractTextSmart_def Let_def)
  moreover have "extractTextSmart (Inr (Some native)) (Inr ocr_text)
      = Inr \<lparr>ex_text = ocr_text, usedOcr = True\<rparr>"
    if "length (trim native) < 300"
    using that by (simp add: extractTextSmart_def Let_def)
  ultimately show ?thesis by metis
qed

text \<open>
  The theorem at a native text of 50 letters, at a line feed followed by 300 letters, and
  at 300 letters (with an OCR path that would fail).
\<close>

theorem extractTextSmart_result_witness:
  "length (trim (replicate 50 0x61)) < 300
   \<and> extractTextSmart (Inr (Some (replicate 50 0x61))) (Inr [0x6F]) = Inr \<lparr>ex_text = [0x6F], usedOcr = True\<rparr>
   \<and> 300 \<le> length (trim padded_native)
   \<and> extractTextSmart (Inr (Some padded_native)) (Inl OcrFailed)
       = Inr \<lparr>ex_text = replicate 300 0x61, usedOcr = False\<rparr>
   \<and> trim (replicate 300 0x61) = replicate 300 0x61
   \<and> extractTextSmart (Inr (Some (replicate 300 0x61))) (Inl OcrFailed)
       = Inr \<lparr>ex_text = replicate 300 0x61, usedOcr = False\<rparr>"
proof -
  have t50: "trim (replicate 50 0x61) = replicate 50 0x61" by code_simp
  have tp: "trim padded_native = replicate 300 0x61" by code_simp
  have t300: "trim (replicate 300 0x61) = replicate 300 0x61" by code_simp
  have h1: "length (trim (replicate 50 0x61)) < 300" unfolding t50 by simp
  have h2: "300 \<le> length (trim padded_native)" unfolding tp by simp
  have h3: "300 \<le> length (trim (replicate 300 0x61))" unfolding t300 by simp
  from extractTextSmart_result [of "replicate 50 0x61" "[0x6F]"] h1
  have 1: "extractTextSmart (Inr (Some (replicate 50 0x61))) (Inr [0x6F]) = Inr \<lparr>ex_text = [0x6F], usedOcr = True\<rparr>"
    by blast
  from extractTextSmart_result [of padded_native _ "Inl OcrFailed"] h2
  have 2: "extractTextSmart (Inr (Some padded_native)) (Inl OcrFailed)
       = Inr \<lparr>ex_text = replicate 300 0x61, usedOcr = False\<rparr>"
    unfolding tp by blast
  from extractTextSmart_result [of "replicate 300 0x61" _ "Inl OcrFailed"] h3 t300
  have 3: "extractTextSmart (Inr (Some (replicate 300 0x61))) (Inl OcrFailed)
       = Inr \<lparr>ex_text = replicate 300 0x61, usedOcr = False\<rparr>"
    by blast
  from h1 1 h2 2 t300 3 show ?thesis by blast
qed

subsection \<open>The page splitter\<close>

lemma page_loop_subseq: "subseq (map page (page_loop parts)) (marker_numbers parts)"
  by (induction parts rule: page_loop.induct) (auto simp: Let_def)

lemma subseq_sorted:
  assumes "subseq xs ys" and "sorted ys"
  shows "sorted (xs :: nat list)"
  using assms
proof (induction rule: list_emb.induct)
  case (list_emb_Nil ys)
  show ?case by simp
next
  case (list_emb_Cons xs ys y)
  then show ?case by simp
next
  case (list_emb_Cons2 x y xs ys)
  have "x \<le> z" if "z \<in> set xs" for z
  proof -
    from list_emb_Cons2(2) that obtain y' where "y' \<in> set ys" "z = y'" by (rule list_emb_set)
    then have "z \<in> set ys" by simp
    with list_emb_Cons2(1,4) show ?thesis by simp
  qed
  moreover have "sorted xs" using list_emb_Cons2 by simp
  ultimately show ?case by simp
qed

lemma page_loop_content:
  "r \<in> set (page_loop parts) \<Longrightarrow> content r \<noteq> [] \<and> trim (content r) = content r"
  by (induction parts rule: page_loop.induct) (auto simp: Let_def trim_idem split: if_splits)

text \<open>
  Claim C2 says that every record has non-empty content and that page numbers never
  decrease. The text without markers is returned as it is, also when it is empty; and the
  pages come in the order of the markers: \<^verbatim>\<open>[PAGE 2]a[PAGE 1]b\<close> gives the pages 2, 1.
\<close>

theorem splitByPages_counterexample:
  "splitByPages [] = [\<lparr>page = 1, content = []\<rparr>]
   \<and> splitByPages two_markers = [\<lparr>page = 2, content = [0x61]\<rparr>, \<lparr>page = 1, content = [0x62]\<rparr>]"
  by code_simp

text \<open>
  Claim C2, amended. For a non-empty text every record has non-empty content. Every record
  is either the single fallback record \<open>(1, text)\<close>, returned when no marker is found or
  every page is dropped, or has non-empty, trimmed content (pages whose trimmed content is
  empty are dropped). When every marker number is at most \<open>2^53\<close>, so that \<^verbatim>\<open>Number\<close>
  reads it exactly: unless the result is the fallback record (whose page is 1 whatever the
  markers are, as for \<^verbatim>\<open>[PAGE 5] \<close>), the pages are a subsequence of the numbers of the
  markers in the order in which they stand in the text; and the page numbers never decrease
  when the marker numbers never decrease.
\<close>

theorem splitByPages_records:
  "(text \<noteq> [] \<longrightarrow> (\<forall>r \<in> set (splitByPages text). content r \<noteq> []))
   \<and> (\<forall>r \<in> set (splitByPages text).
         r = \<lparr>page = 1, content = text\<rparr> \<or> (content r \<noteq> [] \<and> trim (content r) = content r))
   \<and> (exact_markers text \<longrightarrow>
         splitByPages text = [\<lparr>page = 1, content = text\<rparr>]
       \<or> subseq (map page (splitByPages text)) (marker_pages text))
   \<and> (exact_markers text \<and> sorted (marker_pages text) \<longrightarrow>
         sorted (map page (splitByPages text)))"
proof -
  let ?parts = "split_markers [] text"
  let ?fallback = "[\<lparr>page = 1, content = text\<rparr>]"
  have "splitByPages text = ?fallback \<or> splitByPages text = page_loop (tl ?parts)"
    unfolding splitByPages_def Let_def
    by (cases "length ?parts \<le> 1"; cases "page_loop (tl ?parts) = []") simp_all
  then show ?thesis
  proof
    assume "splitByPages text = ?fallback"
    then show ?thesis by simp
  next
    assume out: "splitByPages text = page_loop (tl ?parts)"
    have s: "subseq (map page (splitByPages text)) (marker_pages text)"
      unfolding out marker_pages_def by (rule page_loop_subseq)
    have c: "content r \<noteq> [] \<and> trim (content r) = content r" if "r \<in> set (splitByPages text)" for r
      using that unfolding out by (rule page_loop_content)
    have t: "sorted (map page (splitByPages text))" if "sorted (marker_pages text)"
      using s that by (rule subseq_sorted)
    from c have 1: "text \<noteq> [] \<longrightarrow> (\<forall>r \<in> set (splitByPages text). content r \<noteq> [])" by blast
    from c have 2: "\<forall>r \<in> set (splitByPages text).
         r = \<lparr>page = 1, content = text\<rparr> \<or> (content r \<noteq> [] \<and> trim (content r) = content r)" by blast
    from 1 2 s t show ?thesis by blast
  qed
qed

text \<open>
  The theorem at \<^verbatim>\<open>[PAGE\t07] a\n[PAGE 8] [PAGE 12]b\<close>: the markers 7, 8, 12, of which
  page 8 is dropped.
\<close>

theorem splitByPages_records_witness:
  "sorted_markers \<noteq> [] \<and> marker_pages sorted_markers = [7, 8, 12]
   \<and> exact_markers sorted_markers
   \<and> splitByPages sorted_markers = [\<lparr>page = 7, content = [0x61]\<rparr>, \<lparr>page = 12, content = [0x62]\<rparr>]
   \<and> list_all (\<lambda>r. content r \<noteq> []) (splitByPages sorted_markers)
   \<and> subseq (map page (splitByPages sorted_markers)) (marker_pages sorted_markers)
   \<and> sorted (map page (splitByPages sorted_markers))"
proof -
  have m: "marker_pages sorted_markers = [7, 8, 12]" by code_simp
  have v: "splitByPages sorted_markers = [\<lparr>page = 7, content = [0x61]\<rparr>, \<lparr>page = 12, content = [0x62]\<rparr>]"
    by code_simp
  have n: "sorted_markers \<noteq> []" by (simp add: sorted_markers_def)
  have s: "sorted (marker_pages sorted_markers)" unfolding m by simp
  note T = splitByPages_records [of sorted_markers]
  from T n have "\<forall>r \<in> set (splitByPages sorted_markers). content r \<noteq> []" by blast
  then have 1: "list_all (\<lambda>r. content r \<noteq> []) (splitByPages sorted_markers)"
    by (simp add: list_all_iff)
  have x: "exact_markers sorted_markers" unfolding exact_markers_def m by simp
  have "splitByPages sorted_markers \<noteq> [\<lparr>page = 1, content = sorted_markers\<rparr>]"
    unfolding v by simp
  with T x have 2: "subseq (map page (splitByPages sorted_markers)) (marker_pages sorted_markers)"
    by blast
  from T x s have 3: "sorted (map page (splitByPages sorted_markers))" by blast
  from n m x v 1 2 3 show ?thesis by blast
qed

subsection \<open>The concurrency limiter\<close>

lemma js_ge_capacity:
  "js_ge a max' \<longleftrightarrow> (case capacity max' of Some cap \<Rightarrow> cap \<le> a | None \<Rightarrow> False)"
proof (cases max')
  case (Num x)
  have "x \<le> real a \<longleftrightarrow> \<lceil>x\<rceil> \<le> int a" by (simp add: ceiling_le_iff)
  also have "\<dots> \<longleftrightarrow> nat \<lceil>x\<rceil> \<le> a" by (simp add: nat_le_iff)
  finally show ?thesis using Num by (simp add: js_ge_def capacity_def)
qed (simp_all add: js_ge_def capacity_def)

lemma inv_init: "limiter_inv cap createLimiter"
  by (simp add: limiter_inv_def createLimiter_def)

lemma unlimited_init: "unlimited_inv createLimiter"
  by (simp add: unlimited_inv_def createLimiter_def)

lemma upt_split_fresh:
  assumes "xs @ job # q = [0..<n]"
  shows "job \<notin> set xs" and "job = length xs"
proof -
  have d: "distinct (xs @ job # q)" unfolding assms by simp
  then show "job \<notin> set xs" by auto
  have "(xs @ job # q) ! length xs = [0..<n] ! length xs" unfolding assms ..
  moreover have "length xs < n" using arg_cong [OF assms, of length] by simp
  ultimately show "job = length xs" by simp
qed

lemma inv_counts:
  assumes "limiter_inv cap st"
  shows "length (started st) + length (queue st) = submitted st"
    and "length (started st) = length (delivered st) + active st"
    and "length (started st) = min (submitted st) (cap + length (delivered st))"
    and "active st \<le> cap"
proof -
  from assms have "started st @ queue st = [0..<submitted st]" by (simp add: limiter_inv_def)
  from arg_cong [OF this, of length]
  show 1: "length (started st) + length (queue st) = submitted st" by simp
  from assms show 2: "length (started st) = length (delivered st) + active st"
    and 3: "length (started st) = min (submitted st) (cap + length (delivered st))"
    by (simp_all add: limiter_inv_def)
  from 2 3 show "active st \<le> cap" by simp
qed

lemma inv_limit:
  assumes "limiter_inv cap st" and g: "\<And>a. js_ge a max' \<longleftrightarrow> cap \<le> a"
  shows "limiter_inv cap (limit max' st)"
proof -
  note c = inv_counts [OF assms(1)]
  from assms(1) have sq: "started st @ queue st = [0..<submitted st]"
    and r: "active st = length (running st)" "distinct (running st)"
      "set (running st) \<subseteq> set (started st)"
    by (simp_all add: limiter_inv_def)
  show ?thesis
  proof (cases "cap \<le> active st")
    case True
    then have e: "limit max' st = st\<lparr>queue := queue st @ [submitted st], submitted := submitted st + 1\<rparr>"
      by (simp add: limit_def next_job_def g)
    from True c have "length (started st) = cap + length (delivered st)" by simp
    with c have m: "length (started st) = min (Suc (submitted st)) (cap + length (delivered st))"
      by simp
    from sq have "started st @ queue st @ [submitted st] = [0..<Suc (submitted st)]" by simp
    with r c m show ?thesis unfolding e by (simp add: limiter_inv_def)
  next
    case False
    with c have full: "length (started st) = submitted st" by (simp add: min_def split: if_splits)
    with c have q: "queue st = []" by simp
    have fresh: "submitted st \<notin> set (started st)" using sq q by simp
    have e: "limit max' st =
        st\<lparr>queue := [], submitted := submitted st + 1, active := active st + 1,
           started := started st @ [submitted st], running := running st @ [submitted st]\<rparr>"
      using False q by (simp add: limit_def next_job_def g)
    from False c full
    have m: "Suc (length (started st)) = min (Suc (submitted st)) (cap + length (delivered st))"
      by simp
    from sq q have "started st @ [submitted st] = [0..<Suc (submitted st)]" by simp
    with r c m fresh show ?thesis unfolding e by (auto simp: limiter_inv_def)
  qed
qed

lemma removeAll_running:
  assumes "distinct run" and "job \<in> set run"
  shows "Suc (length (removeAll job run)) = length run" and "distinct (removeAll job run)"
  using assms
  by (simp_all add: distinct_remove1_removeAll [symmetric] length_remove1 distinct_removeAll)
    (cases run; simp)

lemma inv_settle:
  assumes "limiter_inv cap st" and "job \<in> set (running st)" and g: "\<And>a. js_ge a max' \<longleftrightarrow> cap \<le> a"
  shows "limiter_inv cap (settle max' job r st)"
proof -
  note c = inv_counts [OF assms(1)]
  from assms(1) have sq: "started st @ queue st = [0..<submitted st]"
    and r: "active st = length (running st)" "distinct (running st)"
      "set (running st) \<subseteq> set (started st)"
    by (simp_all add: limiter_inv_def)
  let ?run = "removeAll job (running st)"
  from r assms(2) have len: "Suc (length ?run) = length (running st)" by (simp add: removeAll_running)
  have dr: "distinct ?run" "set ?run \<subseteq> set (started st)"
    using r by (auto simp: distinct_removeAll)
  from len r have pos: "active st = Suc (length ?run)" by simp
  show ?thesis
  proof (cases "queue st")
    case Nil
    then have e: "settle max' job r st =
        st\<lparr>delivered := delivered st @ [(job, r)], active := active st - 1, running := ?run\<rparr>"
      by (simp add: settle_def next_job_def)
    from Nil c have "length (started st) = submitted st" by simp
    with c have m: "length (started st) = min (submitted st) (cap + Suc (length (delivered st)))"
      by simp
    from sq dr c m pos show ?thesis unfolding e by (simp add: limiter_inv_def)
  next
    case (Cons j q)
    with sq have sq': "started st @ j # q = [0..<submitted st]" by simp
    then have j: "j \<notin> set (started st)" by (rule upt_split_fresh)
    from c Cons have lt: "length (started st) < submitted st" by simp
    with c have full: "length (started st) = cap + length (delivered st)"
      by (simp add: min_def split: if_splits)
    from c pos have "\<not> cap \<le> active st - 1" by simp
    then have e: "settle max' job r st =
        st\<lparr>delivered := delivered st @ [(job, r)], active := active st,
           running := ?run @ [j], queue := q, started := started st @ [j]\<rparr>"
      using Cons pos by (simp add: settle_def next_job_def g)
    from lt full
    have m: "Suc (length (started st)) = min (submitted st) (cap + Suc (length (delivered st)))"
      by simp
    from dr j have jr: "j \<notin> set ?run" by auto
    from sq' have "(started st @ [j]) @ q = [0..<submitted st]" by simp
    with dr c m pos j jr show ?thesis unfolding e by (auto simp: limiter_inv_def)
  qed
qed

lemma inv_run:
  assumes "\<And>a. js_ge a max' \<longleftrightarrow> cap \<le> a"
  shows "limiter_inv cap (limiter_run max' evs)"
proof (induction evs rule: rev_induct)
  case Nil
  show ?case by (simp add: limiter_run_def inv_init)
next
  case (snoc ev evs)
  have "limiter_run max' (evs @ [ev]) = limiter_step max' (limiter_run max' evs) ev"
    by (simp add: limiter_run_def)
  with snoc assms show ?case by (cases ev) (simp_all add: inv_limit inv_settle)
qed

lemma unlimited_run:
  assumes u: "\<And>a. \<not> js_ge a max'"
  shows "unlimited_inv (limiter_run max' evs)"
proof (induction evs rule: rev_induct)
  case Nil
  show ?case by (simp add: limiter_run_def unlimited_init)
next
  case (snoc ev evs)
  let ?st = "limiter_run max' evs"
  have e: "limiter_run max' (evs @ [ev']) = limiter_step max' ?st ev'" for ev'
    by (simp add: limiter_run_def)
  show ?case
  proof (cases ev)
    case Submit
    from snoc show ?thesis unfolding e Submit
      by (auto simp: unlimited_inv_def limit_def next_job_def u)
  next
    case (Settle job r)
    show ?thesis
    proof (cases "job \<in> set (running ?st)")
      case True
      with snoc have "Suc (length (removeAll job (running ?st))) = length (running ?st)"
        "distinct (removeAll job (running ?st))"
        by (simp_all add: unlimited_inv_def removeAll_running)
      with snoc True show ?thesis unfolding e Settle
        by (auto simp: unlimited_inv_def settle_def next_job_def)
    next
      case False
      with snoc show ?thesis unfolding e Settle by simp
    qed
  qed
qed

lemma delivered_next_job: "delivered (next_job max' st) = delivered st"
  by (simp add: next_job_def split: list.splits)

lemma delivered_step:
  "delivered (limiter_step max' st ev) =
     (case ev of
        Submit \<Rightarrow> delivered st
      | Settle job r \<Rightarrow> if job \<in> set (running st) then delivered st @ [(job, r)] else delivered st)"
  by (cases ev) (simp_all add: limit_def settle_def delivered_next_job)

lemma delivered_settled: "(job, r) \<in> set (delivered (limiter_run max' evs)) \<Longrightarrow> Settle job r \<in> set evs"
proof (induction evs rule: rev_induct)
  case Nil
  then show ?case by (simp add: limiter_run_def createLimiter_def)
next
  case (snoc ev evs)
  have "limiter_run max' (evs @ [ev]) = limiter_step max' (limiter_run max' evs) ev" by (simp add: limiter_run_def)
  with snoc show ?case by (auto simp: delivered_step split: event.splits if_splits)
qed

lemma started_prefix:
  assumes "limiter_inv max' st"
  shows "started st = [0..<length (started st)]"
proof -
  from assms have "started st @ queue st = [0..<submitted st]" by (simp add: limiter_inv_def)
  then have "take (length (started st)) [0..<submitted st] = started st"
    by (metis append_eq_conv_conj)
  moreover have "length (started st) \<le> submitted st" using inv_counts(1) [OF assms] by simp
  ultimately show ?thesis by (simp add: take_upt)
qed

lemma capacity_facts:
  "capacity (Math_max1 x) \<noteq> Some 0" "capacity (Num (real k)) = Some k"
proof -
  show "capacity (Math_max1 x) \<noteq> Some 0"
  proof (cases x)
    case (Num r)
    have "0 < \<lceil>max 1 r\<rceil>" by (simp add: less_ceiling_iff)
    with Num show ?thesis by (simp add: capacity_def Math_max1_def)
  qed (simp_all add: capacity_def Math_max1_def)
  show "capacity (Num (real k)) = Some k" by (simp add: capacity_def)
qed

lemmas limiter_defs = limiter_run_def createLimiter_def limit_def settle_def next_job_def js_ge_def

text \<open>
  Claim C9 says that at no point more than \<^verbatim>\<open>max\<close> tasks are active. The script makes its
  limiter with \<^verbatim>\<open>Math.max(1, Number(process.env.EMBED_CONCURRENCY ?? 2))\<close>; when the
  environment says 1.5, \<^verbatim>\<open>max\<close> is 1.5, and the guard \<^verbatim>\<open>active >= max\<close> of \<^verbatim>\<open>next\<close> is
  false at \<^verbatim>\<open>active = 1\<close>: of two submitted tasks both are active at once.
\<close>

theorem limiter_fraction_counterexample:
  "Math_max1 (Num (3 / 2)) = Num (3 / 2)
   \<and> active (limiter_run (Math_max1 (Num (3 / 2))) [Submit, Submit :: nat event]) = 2
   \<and> (3 / 2 :: real) < real 2"
  by (simp add: Math_max1_def limiter_defs)

text \<open>
  Claim C9, amended. The guard \<^verbatim>\<open>active >= max\<close> holds exactly from the capacity
  \<open>\<lceil>max\<rceil>\<close> on, and never when \<^verbatim>\<open>max\<close> is \<^verbatim>\<open>NaN\<close> or \<^verbatim>\<open>Infinity\<close>; the capacity is
  \<^verbatim>\<open>max\<close> itself when \<^verbatim>\<open>max\<close> is a whole number, and it is never 0 for the \<^verbatim>\<open>max\<close> the
  script passes, \<^verbatim>\<open>Math.max(1, x)\<close>. After any sequence of submissions and settlements:
  when there is a capacity, at most that many tasks are active, and task number \<open>job\<close> has
  been started exactly when it has been submitted and \<open>job <\<close> the capacity plus the number
  of results delivered, that is, as soon as a slot is free for it; when there is none, no
  task waits in the queue; the tasks started so far followed by the queue are the tasks in
  the order of submission (first in, first out); a task waits in the queue only while the
  guard holds; unless the capacity is 0, while a submitted task still waits for its result
  some task is running (so, as long as running tasks settle, every task gets started); the
  result with which a running task settles is delivered to its caller; and only such
  results are delivered.
\<close>

theorem limiter_guarantees:
  "(\<forall>a. js_ge a max' \<longleftrightarrow> (case capacity max' of Some cap \<Rightarrow> cap \<le> a | None \<Rightarrow> False))
   \<and> capacity (Num (real k)) = Some k
   \<and> capacity (Math_max1 x) \<noteq> Some 0
   \<and> (case capacity max' of
         Some cap \<Rightarrow>
           active (limiter_run max' evs) \<le> cap
         \<and> (\<forall>job. job \<in> set (started (limiter_run max' evs)) \<longleftrightarrow>
               job < submitted (limiter_run max' evs)
             \<and> job < cap + length (delivered (limiter_run max' evs)))
       | None \<Rightarrow> queue (limiter_run max' evs) = [])
   \<and> started (limiter_run max' evs) @ queue (limiter_run max' evs)
       = [0..<submitted (limiter_run max' evs)]
   \<and> (queue (limiter_run max' evs) \<noteq> [] \<longrightarrow> js_ge (active (limiter_run max' evs)) max')
   \<and> (capacity max' \<noteq> Some 0
        \<and> length (delivered (limiter_run max' evs)) < submitted (limiter_run max' evs) \<longrightarrow>
         running (limiter_run max' evs) \<noteq> [])
   \<and> (\<forall>job r. job \<in> set (running (limiter_run max' evs)) \<longrightarrow>
         delivered (limiter_run max' (evs @ [Settle job r]))
           = delivered (limiter_run max' evs) @ [(job, r)])
   \<and> (\<forall>job r. (job, r) \<in> set (delivered (limiter_run max' evs)) \<longrightarrow> Settle job r \<in> set evs)"
proof -
  let ?st = "limiter_run max' evs"
  note g = js_ge_capacity [of _ max']
  have bounded: "active ?st \<le> cap
      \<and> (\<forall>job. job \<in> set (started ?st) \<longleftrightarrow>
            job < submitted ?st \<and> job < cap + length (delivered ?st))
      \<and> started ?st @ queue ?st = [0..<submitted ?st]
      \<and> (queue ?st \<noteq> [] \<longrightarrow> cap \<le> active ?st)
      \<and> (cap \<noteq> 0 \<and> length (delivered ?st) < submitted ?st \<longrightarrow> running ?st \<noteq> [])"
    if cap: "capacity max' = Some cap" for cap
  proof -
    have "js_ge a max' \<longleftrightarrow> cap \<le> a" for a using g [of a] cap by simp
    then have inv: "limiter_inv cap ?st" by (rule inv_run)
    note c = inv_counts [OF inv]
    have b: "started ?st @ queue ?st = [0..<submitted ?st]" using inv by (simp add: limiter_inv_def)
    have "set (started ?st) = {0..<length (started ?st)}"
      using started_prefix [OF inv] by (metis atLeastLessThan_upt)
    then have s: "job \<in> set (started ?st) \<longleftrightarrow>
        job < submitted ?st \<and> job < cap + length (delivered ?st)" for job
      using c(3) by simp
    have w: "cap \<le> active ?st" if "queue ?st \<noteq> []"
    proof -
      from that c(1) have "length (started ?st) < submitted ?st" by (cases "queue ?st") simp_all
      with c(2,3) show ?thesis by (simp add: min_def split: if_splits)
    qed
    have d: "running ?st \<noteq> []" if "cap \<noteq> 0" "length (delivered ?st) < submitted ?st"
    proof
      assume "running ?st = []"
      with inv have "active ?st = 0" by (simp add: limiter_inv_def)
      with c that show False by (simp add: min_def split: if_splits)
    qed
    from c(4) s b w d show ?thesis by blast
  qed
  have unbounded: "queue ?st = []
      \<and> started ?st @ queue ?st = [0..<submitted ?st]
      \<and> (length (delivered ?st) < submitted ?st \<longrightarrow> running ?st \<noteq> [])"
    if cap: "capacity max' = None"
  proof -
    have "\<not> js_ge a max'" for a using g [of a] cap by simp
    then have inv: "unlimited_inv ?st" by (rule unlimited_run)
    then show ?thesis by (auto simp: unlimited_inv_def)
  qed
  have e: "delivered (limiter_run max' (evs @ [Settle job r])) = delivered ?st @ [(job, r)]"
    if "job \<in> set (running ?st)" for job r
  proof -
    have "limiter_run max' (evs @ [Settle job r]) = limiter_step max' ?st (Settle job r)"
      by (simp add: limiter_run_def)
    then have "delivered (limiter_run max' (evs @ [Settle job r]))
        = delivered (limiter_step max' ?st (Settle job r))"
      by (rule arg_cong)
    with that show ?thesis by (simp only: delivered_step event.case if_True)
  qed
  have f: "Settle job r \<in> set evs" if "(job, r) \<in> set (delivered ?st)" for job r
    using that by (rule delivered_settled)
  have 1: "\<forall>a. js_ge a max' \<longleftrightarrow> (case capacity max' of Some cap \<Rightarrow> cap \<le> a | None \<Rightarrow> False)"
    using g by blast
  have 4: "case capacity max' of
         Some cap \<Rightarrow>
           active ?st \<le> cap
         \<and> (\<forall>job. job \<in> set (started ?st) \<longleftrightarrow>
               job < submitted ?st \<and> job < cap + length (delivered ?st))
       | None \<Rightarrow> queue ?st = []"
  proof (cases "capacity max'")
    case None
    with unbounded show ?thesis by simp
  next
    case (Some cap)
    with bounded [OF Some] show ?thesis by simp
  qed
  have 6: "started ?st @ queue ?st = [0..<submitted ?st]"
    using bounded unbounded by (cases "capacity max'") blast+
  have 7: "queue ?st \<noteq> [] \<longrightarrow> js_ge (active ?st) max'"
  proof (cases "capacity max'")
    case None
    with unbounded show ?thesis by simp
  next
    case (Some cap)
    with bounded [OF Some] g [of "active ?st"] show ?thesis by simp
  qed
  have 8: "capacity max' \<noteq> Some 0 \<and> length (delivered ?st) < submitted ?st \<longrightarrow> running ?st \<noteq> []"
  proof (cases "capacity max'")
    case None
    with unbounded show ?thesis by simp
  next
    case (Some cap)
    with bounded [OF Some] show ?thesis by simp
  qed
  from 1 capacity_facts 4 6 7 8 e f show ?thesis by blast
qed

text \<open>
  The theorem at five tasks submitted to a limiter with \<open>max = 2\<close>, of which task 1 has
  settled, and at the same tasks with \<^verbatim>\<open>max = Math.max(1, NaN)\<close>.
\<close>

theorem limiter_guarantees_witness:
  "limiter_run (Num 2) five_tasks =
     \<lparr>active = 2, queue = [3, 4], submitted = 5, started = [0, 1, 2], running = [0, 2],
      delivered = [(1, 10)]\<rparr>
   \<and> capacity (Num 2) = Some 2
   \<and> js_ge (active (limiter_run (Num 2) five_tasks)) (Num 2)
   \<and> length (delivered (limiter_run (Num 2) five_tasks)) < submitted (limiter_run (Num 2) five_tasks)
   \<and> running (limiter_run (Num 2) five_tasks) \<noteq> []
   \<and> 2 \<in> set (running (limiter_run (Num 2) five_tasks))
   \<and> delivered (limiter_run (Num 2) (five_tasks @ [Settle 2 20])) = [(1, 10), (2, 20)]
   \<and> (1, 10) \<in> set (delivered (limiter_run (Num 2) five_tasks)) \<and> Settle 1 10 \<in> set five_tasks
   \<and> 2 \<in> set (started (limiter_run (Num 2) five_tasks))
   \<and> 3 \<notin> set (started (limiter_run (Num 2) five_tasks))
   \<and> capacity (Math_max1 NaN) = None
   \<and> queue (limiter_run (Math_max1 NaN) five_tasks) = []
   \<and> running (limiter_run (Math_max1 NaN) five_tasks) \<noteq> []"
proof -
  let ?st = "limiter_run (Num 2) five_tasks"
  have st: "?st =
     \<lparr>active = 2, queue = [3, 4], submitted = 5, started = [0, 1, 2], running = [0, 2],
      delivered = [(1, 10)]\<rparr>"
    by (simp add: five_tasks_def limiter_defs)
  note T = limiter_guarantees [where max' = "Num 2" and k = 2 and x = NaN and evs = five_tasks]
  from T have c: "capacity (Num 2) = Some 2" by simp
  have "queue ?st \<noteq> []" unfolding st by simp
  with T have 0: "js_ge (active ?st) (Num 2)" by blast
  have h1: "length (delivered ?st) < submitted ?st" unfolding st by simp
  with T c have 1: "running ?st \<noteq> []" by simp
  have h2: "2 \<in> set (running ?st)" unfolding st by simp
  with T have "delivered (limiter_run (Num 2) (five_tasks @ [Settle 2 20])) = delivered ?st @ [(2, 20)]"
    by blast
  then have 2: "delivered (limiter_run (Num 2) (five_tasks @ [Settle 2 20])) = [(1, 10), (2, 20)]"
    unfolding st by simp
  have h3: "(1, 10) \<in> set (delivered ?st)" unfolding st by simp
  with T have 3: "Settle 1 10 \<in> set five_tasks" by blast
  from T c have s: "job \<in> set (started ?st) \<longleftrightarrow> job < submitted ?st \<and> job < 2 + length (delivered ?st)"
    for job by simp
  have "(2 :: nat) < submitted ?st \<and> 2 < 2 + length (delivered ?st)" unfolding st by simp
  with s have 4: "2 \<in> set (started ?st)" by blast
  have "\<not> (3 :: nat) < 2 + length (delivered ?st)" unfolding st by simp
  with s have 5: "3 \<notin> set (started ?st)" by blast
  let ?un = "limiter_run (Math_max1 NaN) five_tasks"
  note U = limiter_guarantees [where max' = "Math_max1 NaN" and k = 2 and x = NaN and evs = five_tasks]
  have n: "capacity (Math_max1 NaN) = None" by (simp add: capacity_def Math_max1_def)
  with U have 6: "queue ?un = []" by simp
  have "length (delivered ?un) < submitted ?un" by (simp add: five_tasks_def Math_max1_def limiter_defs)
  with U n have 7: "running ?un \<noteq> []" by simp
  from st c 0 h1 1 h2 2 h3 3 4 5 n 6 7 show ?thesis by blast
qed

subsection \<open>The OCR markers and the page splitter\<close>

lemma digit_not_ws: "is_digit c \<Longrightarrow> \<not> is_ws c"
  by (auto simp: is_digit_def is_ws_def word_le_nat_alt)

lemma is_digit_of_nat: "d < 10 \<Longrightarrow> is_digit (0x30 + of_nat d)"
proof -
  assume "d < 10"
  then have "d \<in> {0, 1, 2, 3, 4, 5, 6, 7, 8, 9}" by auto
  then show ?thesis by (auto simp: is_digit_def)
qed

lemma unat_digit: "d < 10 \<Longrightarrow> unat ((0x30 :: jschar) + of_nat d - 0x30) = d"
  by (simp add: unat_of_nat)

lemma decimal_digits: "decimal n \<noteq> [] \<and> (\<forall>c \<in> set (decimal n). is_digit c)"
proof (induction n rule: decimal.induct)
  case (1 n)
  show ?case
  proof (cases "n < 10")
    case True
    then show ?thesis by (subst (1 2) decimal.simps) (simp add: is_digit_of_nat)
  next
    case False
    with 1 show ?thesis by (subst (1 2) decimal.simps) (simp add: is_digit_of_nat)
  qed
qed

lemma Number_digits_snoc:
  "Number_digits (ds @ [c]) = 10 * Number_digits ds + unat (c - 0x30)"
  by (simp add: Number_digits_def)

lemma Number_digits_decimal: "Number_digits (decimal n) = n"
proof (induction n rule: decimal.induct)
  case (1 n)
  show ?case
  proof (cases "n < 10")
    case True
    then show ?thesis
      using unat_digit [of n] by (subst decimal.simps) (simp add: Number_digits_def)
  next
    case False
    with 1 have "Number_digits (decimal (n div 10)) = n div 10" by simp
    with False show ?thesis
      using unat_digit [of "n mod 10"] by (subst decimal.simps) (simp add: Number_digits_snoc)
  qed
qed

lemma trim_decompose:
  "\<exists>a b. s = a @ trim s @ b \<and> (\<forall>c \<in> set a. is_ws c) \<and> (\<forall>c \<in> set b. is_ws c)"
proof -
  let ?d = "dropWhile is_ws s"
  let ?a = "takeWhile is_ws s"
  let ?b = "rev (takeWhile is_ws (rev ?d))"
  have "rev ?d = takeWhile is_ws (rev ?d) @ dropWhile is_ws (rev ?d)" by simp
  then have "rev (rev ?d) = rev (takeWhile is_ws (rev ?d) @ dropWhile is_ws (rev ?d))" by (rule arg_cong)
  then have "?d = trim s @ ?b" unfolding trim_def rev_append rev_rev_ident .
  moreover have "s = ?a @ ?d" by simp
  ultimately have "s = ?a @ trim s @ ?b" by simp
  moreover have "\<forall>c \<in> set ?a. is_ws c" by (auto dest: set_takeWhileD)
  moreover have "\<forall>c \<in> set ?b. is_ws c" by (auto dest: set_takeWhileD)
  ultimately show ?thesis by blast
qed

lemma rtrim_sandwich:
  assumes "\<forall>c \<in> set b. is_ws c" and "m \<noteq> []" and "\<not> is_ws (last m)"
  shows "rev (dropWhile is_ws (rev (m @ b))) = m"
proof -
  have "dropWhile is_ws (rev b @ rev m) = dropWhile is_ws (rev m)"
    using assms(1) by (intro dropWhile_append2) simp
  also have "\<dots> = rev m"
    using assms(2,3) by (cases "rev m") (auto simp: last_rev [symmetric] hd_rev)
  finally show ?thesis by simp
qed

lemma trim_sandwich:
  assumes "\<forall>c \<in> set a. is_ws c" and "\<forall>c \<in> set b. is_ws c"
    and "m = [] \<or> (\<not> is_ws (hd m) \<and> \<not> is_ws (last m))"
  shows "trim (a @ m @ b) = m"
proof (cases "m = []")
  case True
  have d: "dropWhile is_ws (a @ [] @ b) = []"
    using assms(1,2) by (auto simp: dropWhile_eq_Nil_conv)
  show ?thesis unfolding trim_def True d by simp
next
  case False
  with assms(3) have h: "\<not> is_ws (hd m)" and l: "\<not> is_ws (last m)" by simp_all
  have "dropWhile is_ws (a @ m @ b) = dropWhile is_ws (m @ b)"
    using assms(1) by (intro dropWhile_append2) simp
  also have "\<dots> = m @ b" using False h by (cases m) simp_all
  finally have "trim (a @ m @ b) = rev (dropWhile is_ws (rev (m @ b)))" by (simp add: trim_def)
  also have "\<dots> = m" using assms(2) False l by (rule rtrim_sandwich)
  finally show ?thesis .
qed

lemma trim_pad:
  assumes "\<forall>c \<in> set a. is_ws c" and "\<forall>c \<in> set b. is_ws c"
  shows "trim (a @ t @ b) = trim t"
proof -
  from trim_decompose [of t] obtain a' b' where t: "t = a' @ trim t @ b'"
    and ws: "\<forall>c \<in> set a'. is_ws c" "\<forall>c \<in> set b'. is_ws c" by blast
  have "a @ t @ b = (a @ a') @ trim t @ (b' @ b)" by (subst t) simp
  then have "trim (a @ t @ b) = trim ((a @ a') @ trim t @ (b' @ b))" by (rule arg_cong)
  also have "\<dots> = trim t" using assms ws trim_ends [of t] by (intro trim_sandwich) auto
  finally show ?thesis .
qed

lemma char_facts:
  "is_ws 0x0A" "is_ws 0x20" "\<not> is_ws 0x5B" "\<not> is_digit 0x5B" "\<not> is_digit 0x0A" "\<not> is_digit 0x5D"
  by (simp_all add: is_ws_def is_digit_def)

lemma marker_tail_ext:
  assumes "marker_tail u = Some (ds, rest)"
  shows "marker_tail (u @ z) = Some (ds, rest @ z)"
proof -
  let ?u1 = "dropWhile is_ws u"
  let ?u2 = "dropWhile is_digit ?u1"
  from assms have ws: "takeWhile is_ws u \<noteq> []" and ds: "takeWhile is_digit ?u1 \<noteq> []"
    and ds': "ds = takeWhile is_digit ?u1" and u2: "?u2 = 0x5D # rest"
    by (auto simp: marker_tail_def Let_def split: if_splits list.splits)
  have n1: "?u1 \<noteq> []"
  proof
    assume "?u1 = []"
    then have "takeWhile is_digit ?u1 = []" by (simp only: takeWhile.simps)
    with ds show False by simp
  qed
  then have "hd ?u1 \<in> set ?u1" by (rule hd_in_set)
  then have "hd ?u1 \<in> set u" by (rule set_dropWhileD)
  moreover from n1 have "\<not> is_ws (hd ?u1)" by (rule hd_dropWhile)
  ultimately have "hd ?u1 \<in> set u" "\<not> is_ws (hd ?u1)" .
  then have 1: "takeWhile is_ws (u @ z) = takeWhile is_ws u" "dropWhile is_ws (u @ z) = ?u1 @ z"
    by (auto intro: takeWhile_append1 dropWhile_append1)
  from u2 have "0x5D \<in> set ?u2" by simp
  then have "0x5D \<in> set ?u1" by (rule set_dropWhileD)
  then have 2: "takeWhile is_digit (?u1 @ z) = takeWhile is_digit ?u1"
    "dropWhile is_digit (?u1 @ z) = ?u2 @ z"
    using char_facts(6) by (auto intro: takeWhile_append1 dropWhile_append1)
  show ?thesis
    unfolding marker_tail_def Let_def 1 2 using ws ds ds' u2 by simp
qed

lemma marker_tail_cut:
  assumes "at_boundary w" and "marker_tail (u @ w) = Some (ds, rest)"
  shows "\<exists>rest'. marker_tail u = Some (ds, rest') \<and> rest = rest' @ w"
proof (cases "w = []")
  case True
  with assms(2) show ?thesis by simp
next
  case False
  with assms(1) obtain w' where w: "w = 0x0A # 0x0A # 0x5B # w'" by (auto simp: at_boundary_def)
  have tw: "takeWhile is_ws w = [0x0A, 0x0A]" "dropWhile is_ws w = 0x5B # w'"
    "takeWhile is_digit w = []" "dropWhile is_digit w = w"
    unfolding w using char_facts by simp_all
  let ?u1 = "dropWhile is_ws u"
  let ?u2 = "dropWhile is_digit ?u1"
  show ?thesis
  proof (cases "\<forall>c \<in> set u. is_ws c")
    case True
    then have "dropWhile is_ws (u @ w) = dropWhile is_ws w" by (intro dropWhile_append2) simp
    then have "marker_tail (u @ w) = None"
      unfolding marker_tail_def Let_def using tw char_facts by simp
    with assms(2) show ?thesis by simp
  next
    case False
    then obtain x where "x \<in> set u" "\<not> is_ws x" by blast
    then have 1: "takeWhile is_ws (u @ w) = takeWhile is_ws u" "dropWhile is_ws (u @ w) = ?u1 @ w"
      by (auto intro: takeWhile_append1 dropWhile_append1)
    show ?thesis
    proof (cases "\<forall>c \<in> set ?u1. is_digit c")
      case True
      then have "takeWhile is_digit (?u1 @ w) = ?u1 @ takeWhile is_digit w"
        "dropWhile is_digit (?u1 @ w) = dropWhile is_digit w"
        by (auto intro: takeWhile_append2 dropWhile_append2)
      then have "marker_tail (u @ w) = None"
        unfolding marker_tail_def Let_def 1 using tw by (simp add: w)
      with assms(2) show ?thesis by simp
    next
      case False
      then obtain y where y: "y \<in> set ?u1" "\<not> is_digit y" by blast
      then have 2: "takeWhile is_digit (?u1 @ w) = takeWhile is_digit ?u1"
        "dropWhile is_digit (?u1 @ w) = ?u2 @ w"
        by (auto intro: takeWhile_append1 dropWhile_append1)
      from y have "?u2 \<noteq> []" by (auto simp: dropWhile_eq_Nil_conv)
      then obtain c r3 where u2: "?u2 = c # r3" by (cases ?u2) auto
      from assms(2) have "marker_tail u = Some (ds, r3) \<and> rest = r3 @ w"
        unfolding marker_tail_def Let_def 1 2 u2 by (auto split: if_splits)
      then show ?thesis by blast
    qed
  qed
qed

lemma length_page_tag: "length page_tag = 5"
  by (simp add: page_tag_def)

lemma match_marker_ext:
  assumes "match_marker q = Some (ds, rest)"
  shows "match_marker (q @ z) = Some (ds, rest @ z)"
proof -
  from assms have t: "take 5 q = page_tag" and m: "marker_tail (drop 5 q) = Some (ds, rest)"
    by (auto simp: match_marker_def split: if_splits)
  from t have "length (take 5 q) = 5" by (simp add: length_page_tag)
  then have l: "5 \<le> length q" by simp
  then have "take 5 (q @ z) = page_tag" "drop 5 (q @ z) = drop 5 q @ z" using t by simp_all
  with marker_tail_ext [OF m, of z] show ?thesis by (simp add: match_marker_def)
qed

lemma match_marker_cut:
  assumes "at_boundary w" and "match_marker (q @ w) = Some (ds, rest)"
  shows "\<exists>rest'. match_marker q = Some (ds, rest') \<and> rest = rest' @ w"
proof (cases "w = []")
  case True
  with assms(2) show ?thesis by simp
next
  case False
  with assms(1) obtain w' where w: "w = 0x0A # 0x0A # 0x5B # w'" by (auto simp: at_boundary_def)
  from assms(2) have t: "take 5 (q @ w) = page_tag"
    and m: "marker_tail (drop 5 (q @ w)) = Some (ds, rest)"
    by (auto simp: match_marker_def split: if_splits)
  have l: "5 \<le> length q"
  proof (rule ccontr)
    assume "\<not> 5 \<le> length q"
    then have "take 5 (q @ w) = q @ 0x0A # take (4 - length q) (0x0A # 0x5B # w')"
      by (simp add: w take_Cons')
    then have "0x0A \<in> set (take 5 (q @ w))" by simp
    then show False unfolding t by (simp add: page_tag_def)
  qed
  then have e: "take 5 (q @ w) = take 5 q" "drop 5 (q @ w) = drop 5 q @ w" by simp_all
  from marker_tail_cut [OF assms(1) m [unfolded e]] t [unfolded e]
  show ?thesis by (simp add: match_marker_def)
qed

lemma match_page_marker:
  "match_marker (page_tag @ [0x20] @ decimal n @ [0x5D] @ r) = Some (decimal n, r)"
proof -
  note d = decimal_digits [of n]
  have t: "take 5 (page_tag @ [0x20] @ decimal n @ [0x5D] @ r) = page_tag"
    "drop 5 (page_tag @ [0x20] @ decimal n @ [0x5D] @ r) = [0x20] @ decimal n @ [0x5D] @ r"
    by (simp_all add: length_page_tag)
  from d have nws: "\<not> is_ws (hd (decimal n))" by (simp add: digit_not_ws)
  have 1: "takeWhile is_ws ([0x20] @ decimal n @ [0x5D] @ r) = [0x20]"
    "dropWhile is_ws ([0x20] @ decimal n @ [0x5D] @ r) = decimal n @ [0x5D] @ r"
    using d nws char_facts by (cases "decimal n"; simp)+
  have 2: "takeWhile is_digit (decimal n @ [0x5D] @ r) = decimal n"
    "dropWhile is_digit (decimal n @ [0x5D] @ r) = [0x5D] @ r"
    using d char_facts by (simp_all add: takeWhile_append2 dropWhile_append2)
  show ?thesis
    unfolding match_marker_def t marker_tail_def Let_def 1 2 using d by simp
qed

lemma match_marker_newline: "match_marker (0x0A # s) = None"
  by (simp add: match_marker_def page_tag_def)

lemma ocr_loop_body: "ocr_loop acc images = acc @ ocr_body images"
  by (induction acc images rule: ocr_loop.induct) (simp_all add: ocr_body_def)

lemma ocr_body_Cons:
  "ocr_body ((n, t) # images) =
     0x0A # 0x0A # (page_tag @ [0x20] @ decimal n @ [0x5D] @ (0x0A # t) @ ocr_body images)"
  by (simp add: ocr_body_def page_marker_def)

lemma ocr_body_snoc: "ocr_body (images @ [(n, t)]) = ocr_body images @ page_marker n @ t"
  by (simp add: ocr_body_def)

lemma at_boundary_body: "at_boundary (ocr_body images)"
proof (cases images)
  case Nil
  then show ?thesis by (simp add: at_boundary_def ocr_body_def)
next
  case (Cons x xs)
  then show ?thesis by (cases x) (simp add: at_boundary_def ocr_body_Cons page_tag_def)
qed

lemma split_no_match:
  "match_marker (c # cs) = None \<Longrightarrow> split_markers acc (c # cs) = split_markers (acc @ [c]) cs"
  by simp

lemma split_at_match:
  "s \<noteq> [] \<Longrightarrow> match_marker s = Some (ds, rest) \<Longrightarrow>
   split_markers acc s = acc # ds # split_markers [] rest"
  by (cases s) simp_all

lemma split_skip:
  assumes "\<And>q. suffix q u \<Longrightarrow> q \<noteq> [] \<Longrightarrow> match_marker (q @ w) = None"
  shows "split_markers acc (u @ w) = split_markers (acc @ u) w"
  using assms
proof (induction u arbitrary: acc)
  case Nil
  show ?case by simp
next
  case (Cons c u)
  from Cons.prems [of "c # u"] have "match_marker (c # (u @ w)) = None" by simp
  then have "split_markers acc ((c # u) @ w) = split_markers (acc @ [c]) (u @ w)" by simp
  also have "\<dots> = split_markers ((acc @ [c]) @ u) w"
    by (rule Cons.IH) (simp add: Cons.prems suffix_ConsI)
  finally show ?case by simp
qed

lemma no_marker_boundary:
  assumes "no_marker p" and "at_boundary w" and "suffix q p"
  shows "match_marker (q @ w) = None"
proof (cases "match_marker (q @ w)")
  case (Some x)
  obtain ds rest where "x = (ds, rest)" by (cases x)
  with Some match_marker_cut [OF assms(2), of q ds rest]
  obtain rest' where "match_marker q = Some (ds, rest')" by blast
  moreover from assms(1,3) have "match_marker q = None"
    by (simp add: no_marker_def list_all_iff in_set_suffixes)
  ultimately show ?thesis by simp
qed simp

lemma no_marker_prefix:
  assumes "no_marker (p @ b)"
  shows "no_marker p"
proof -
  have "match_marker q = None" if "suffix q p" for q
  proof (cases "match_marker q")
    case (Some x)
    obtain ds rest where "x = (ds, rest)" by (cases x)
    with Some have "match_marker (q @ b) = Some (ds, rest @ b)" by (simp add: match_marker_ext)
    moreover from that have "suffix (q @ b) (p @ b)" by simp
    with assms have "match_marker (q @ b) = None"
      by (simp add: no_marker_def list_all_iff in_set_suffixes del: same_suffix_suffix)
    ultimately show ?thesis by simp
  qed simp
  then show ?thesis by (simp add: no_marker_def list_all_iff in_set_suffixes)
qed

lemma split_page:
  assumes "no_marker t"
  shows "split_markers acc (page_tag @ [0x20] @ decimal n @ [0x5D] @ (0x0A # t) @ ocr_body images)
    = acc # decimal n # split_markers (0x0A # t) (ocr_body images)"
proof -
  let ?w = "ocr_body images"
  have ne: "page_tag @ [0x20] @ decimal n @ [0x5D] @ (0x0A # t) @ ?w \<noteq> []"
    by (simp add: page_tag_def)
  have "match_marker (q @ ?w) = None" if "suffix q (0x0A # t)" "q \<noteq> []" for q
  proof (cases "q = 0x0A # t")
    case True
    then show ?thesis by (simp add: match_marker_newline)
  next
    case False
    with that have "suffix q t" by (simp add: suffix_Cons)
    with assms at_boundary_body show ?thesis by (rule no_marker_boundary)
  qed
  then have "split_markers [] ((0x0A # t) @ ?w) = split_markers ([] @ (0x0A # t)) ?w"
    by (rule split_skip)
  with split_at_match [OF ne match_page_marker, of acc] show ?thesis by simp
qed

lemma split_body:
  "\<forall>x \<in> set images. no_marker (snd x) \<Longrightarrow> split_markers acc (ocr_body images) = parts_of acc images"
proof (induction images arbitrary: acc)
  case Nil
  show ?case by (simp add: ocr_body_def)
next
  case (Cons x images)
  obtain n t where x: "x = (n, t)" by (cases x)
  from Cons.prems x have nm: "no_marker t" by simp
  from Cons have IH: "split_markers (0x0A # t) (ocr_body images) = parts_of (0x0A # t) images"
    by simp
  have "split_markers acc (ocr_body (x # images)) =
      split_markers (acc @ [0x0A, 0x0A])
        (page_tag @ [0x20] @ decimal n @ [0x5D] @ (0x0A # t) @ ocr_body images)"
    unfolding x ocr_body_Cons by (simp add: match_marker_newline)
  also have "\<dots> = (acc @ [0x0A, 0x0A]) # decimal n # split_markers (0x0A # t) (ocr_body images)"
    using nm by (rule split_page)
  finally show ?case using IH x by simp
qed

lemma page_loop_parts:
  assumes "trim t \<noteq> []" and "\<forall>x \<in> set images. trim (snd x) \<noteq> []"
  shows "page_loop (decimal n # parts_of (0x0A # t) images) = map page_record ((n, t) # images)"
  using assms
proof (induction images arbitrary: n t)
  case Nil
  have "trim (0x0A # t) = trim t"
    using trim_pad [of "[0x0A]" "[]" t] char_facts by simp
  with Nil show ?case by (simp add: page_record_def Number_digits_decimal)
next
  case (Cons x images)
  obtain n' t' where x: "x = (n', t')" by (cases x)
  have "trim ((0x0A # t) @ [0x0A, 0x0A]) = trim t"
    using trim_pad [of "[0x0A]" "[0x0A, 0x0A]" t] char_facts by simp
  moreover have "page_loop (decimal n' # parts_of (0x0A # t') images) = map page_record ((n', t') # images)"
    using Cons.prems x by (intro Cons.IH) simp_all
  ultimately show ?case using Cons.prems x
    by (simp add: page_record_def Number_digits_decimal)
qed

lemma parts_of_nonempty: "parts_of acc images \<noteq> []"
  by (cases images) auto

lemma roundtrip_trimmed:
  assumes ne: "images \<noteq> []"
    and ok: "\<forall>x \<in> set images. no_marker (snd x) \<and> trim (snd x) \<noteq> []"
    and lst: "snd (last images) \<noteq> []" "\<not> is_ws (last (snd (last images)))"
    and b: "\<forall>c \<in> set b. is_ws c"
  shows "splitByPages (trim (ocr_body images @ b)) = map page_record images"
proof -
  from ne obtain n t rest where im: "images = (n, t) # rest" by (cases images) auto
  let ?X = "page_tag @ [0x20] @ decimal n @ [0x5D] @ (0x0A # t) @ ocr_body rest"
  have body: "ocr_body images = [0x0A, 0x0A] @ ?X" unfolding im ocr_body_Cons by simp
  have X: "?X \<noteq> []" "hd ?X = 0x5B" by (simp_all add: page_tag_def)
  obtain nk tk where lk: "last images = (nk, tk)" by (cases "last images")
  from ne have "images = butlast images @ [last images]" by simp
  then have "ocr_body images = ocr_body (butlast images @ [(nk, tk)])" unfolding lk by (rule arg_cong)
  then have "ocr_body images = ocr_body (butlast images) @ page_marker nk @ tk"
    by (simp only: ocr_body_snoc)
  moreover from lst lk have tk: "tk \<noteq> []" "\<not> is_ws (last tk)" by simp_all
  ultimately have "last (ocr_body images) = last tk" by simp
  moreover have "last (ocr_body images) = last ?X" unfolding body using X(1) by simp
  ultimately have lX: "\<not> is_ws (last ?X)" using tk by simp
  have "trim ([0x0A, 0x0A] @ ?X @ b) = ?X"
    using b X lX char_facts by (intro trim_sandwich) simp_all
  then have tx: "trim (ocr_body images @ b) = ?X" unfolding body by simp
  from ok im have nm: "no_marker t" "\<forall>x \<in> set rest. no_marker (snd x)" by simp_all
  have "split_markers [] ?X = [] # decimal n # split_markers (0x0A # t) (ocr_body rest)"
    using nm(1) by (rule split_page)
  also have "split_markers (0x0A # t) (ocr_body rest) = parts_of (0x0A # t) rest"
    using nm(2) by (rule split_body)
  finally have parts: "split_markers [] ?X = [] # decimal n # parts_of (0x0A # t) rest" .
  have len: "\<not> length (split_markers [] ?X) \<le> 1"
    unfolding parts using parts_of_nonempty [of "0x0A # t" rest] by (cases "parts_of (0x0A # t) rest") simp_all
  from ok im have "page_loop (decimal n # parts_of (0x0A # t) rest) = map page_record ((n, t) # rest)"
    by (intro page_loop_parts) simp_all
  then have out: "page_loop (tl (split_markers [] ?X)) = map page_record images"
    unfolding parts im by simp
  have "splitByPages ?X = map page_record images"
    unfolding splitByPages_def Let_def out using len ne by simp
  then show ?thesis unfolding tx .
qed

lemma roundtrip_images:
  assumes ne: "images \<noteq> []"
    and ok: "\<forall>x \<in> set images. trim (snd x) \<noteq> [] \<and> no_marker (snd x)"
  shows "splitByPages (fst (ocrPdfToText images)) = map page_record images"
proof -
  obtain nk tk where lk: "last images = (nk, tk)" by (cases "last images")
  let ?init = "butlast images"
  from ne lk have im: "images = ?init @ [(nk, tk)]" by (metis append_butlast_last_id)
  then have "(nk, tk) \<in> set images" by (metis in_set_conv_decomp)
  with ok have tk: "trim tk \<noteq> []" "no_marker tk" by auto
  from trim_decompose [of tk] obtain a b where d: "tk = a @ trim tk @ b"
    and ws: "\<forall>c \<in> set a. is_ws c" "\<forall>c \<in> set b. is_ws c" by blast
  let ?t = "a @ trim tk"
  let ?images = "?init @ [(nk, ?t)]"
  from trim_ends [of tk] tk(1) have ends: "\<not> is_ws (hd (trim tk))" "\<not> is_ws (last (trim tk))"
    by simp_all
  have tt: "trim ?t = trim tk"
    using trim_sandwich [of a "[]" "trim tk"] ws ends by simp
  have "no_marker (?t @ b)" using tk(2) d by simp
  then have nm: "no_marker ?t" by (rule no_marker_prefix)
  have init: "x \<in> set images" if "x \<in> set ?init" for x using that by (rule in_set_butlastD)
  have ok': "\<forall>x \<in> set ?images. no_marker (snd x) \<and> trim (snd x) \<noteq> []"
    using ok init nm tt tk(1) by auto
  have "ocr_body images = ocr_body (?init @ [(nk, tk)])" using im by (rule arg_cong)
  also have "\<dots> = ocr_body ?init @ page_marker nk @ tk" by (rule ocr_body_snoc)
  also have "\<dots> = ocr_body ?init @ page_marker nk @ ?t @ b" using d by simp
  also have "\<dots> = ocr_body ?images @ b" by (simp add: ocr_body_snoc)
  finally have body: "ocr_body images = ocr_body ?images @ b" .
  have "splitByPages (trim (ocr_body ?images @ b)) = map page_record ?images"
    using ok' ws(2) tk(1) ends by (intro roundtrip_trimmed) simp_all
  also have "\<dots> = map page_record (?init @ [(nk, tk)])" by (simp add: page_record_def tt)
  also have "\<dots> = map page_record images" using im by simp
  finally show ?thesis by (simp add: ocrPdfToText_def ocr_loop_body body)
qed

text \<open>
  Claim C5 says that splitting the marked text gives back the list of pages, for every list
  of page texts. For the empty list the OCR text is empty and \<^verbatim>\<open>splitByPages\<close> falls back to
  the single record \<open>(1, "")\<close>, which is not the empty list of records.
\<close>

theorem splitByPages_no_pages_counterexample:
  "splitByPages (fst (ocrPdfToText (enumerate 1 []))) = [\<lparr>page = 1, content = []\<rparr>]"
  by code_simp

text \<open>
  Claim C5, amended. For every non-empty list of page texts \<open>p\<^sub>1, \<dots>, p\<^sub>n\<close>, each with a
  non-empty trim and without a match of the marker pattern, the text that \<^verbatim>\<open>ocrPdfToText\<close>
  builds from the pages numbered \<open>1, \<dots>, n\<close> is split by \<^verbatim>\<open>splitByPages\<close> into the records
  \<open>(1, trim p\<^sub>1), \<dots>, (n, trim p\<^sub>n)\<close>.
\<close>

theorem splitByPages_inverts_ocr_markers:
  assumes "ps \<noteq> []" and "\<forall>p \<in> set ps. trim p \<noteq> [] \<and> no_marker p"
  shows "splitByPages (fst (ocrPdfToText (enumerate 1 ps)))
    = map (\<lambda>(i, p). \<lparr>page = i, content = trim p\<rparr>) (enumerate 1 ps)"
proof -
  have "enumerate 1 ps \<noteq> []" using assms(1) by (cases ps) simp_all
  moreover have "\<forall>x \<in> set (enumerate 1 ps). trim (snd x) \<noteq> [] \<and> no_marker (snd x)"
    using assms(2) by (auto simp: in_set_enumerate_eq)
  ultimately have "splitByPages (fst (ocrPdfToText (enumerate 1 ps))) = map page_record (enumerate 1 ps)"
    by (rule roundtrip_images)
  also have "page_record = (\<lambda>(i, p). \<lparr>page = i, content = trim p\<rparr>)"
    by (auto simp: page_record_def fun_eq_iff)
  finally show ?thesis .
qed

text \<open>
  The theorem at the three pages \<^verbatim>\<open>" ab\n"\<close>, \<^verbatim>\<open>"[PAGE]1"\<close> (which looks like a marker and
  is none) and \<^verbatim>\<open>"c d"\<close>.
\<close>

theorem splitByPages_inverts_ocr_markers_witness:
  "three_pages \<noteq> [] \<and> list_all (\<lambda>p. trim p \<noteq> [] \<and> no_marker p) three_pages
   \<and> splitByPages (fst (ocrPdfToText (enumerate 1 three_pages)))
     = [\<lparr>page = 1, content = [0x61, 0x62]\<rparr>,
        \<lparr>page = 2, content = [0x5B, 0x50, 0x41, 0x47, 0x45, 0x5D, 0x31]\<rparr>,
        \<lparr>page = 3, content = [0x63, 0x20, 0x64]\<rparr>]"
proof -
  have h1: "three_pages \<noteq> []" by (simp add: three_pages_def)
  have h2: "list_all (\<lambda>p. trim p \<noteq> [] \<and> no_marker p) three_pages" by code_simp
  then have h2': "\<forall>p \<in> set three_pages. trim p \<noteq> [] \<and> no_marker p" by (simp add: list_all_iff)
  have e: "map (\<lambda>(i, p). \<lparr>page = i, content = trim p\<rparr>) (enumerate 1 three_pages)
      = [\<lparr>page = 1, content = [0x61, 0x62]\<rparr>,
         \<lparr>page = 2, content = [0x5B, 0x50, 0x41, 0x47, 0x45, 0x5D, 0x31]\<rparr>,
         \<lparr>page = 3, content = [0x63, 0x20, 0x64]\<rparr>]"
    by code_simp
  from splitByPages_inverts_ocr_markers [OF h1 h2'] e h1 h2 show ?thesis by simp
qed

subsection \<open>The driver\<close>

lemma extendsE:
  assumes "extends st st' ks"
  obtains new pending where "rows st' = rows st @ new"
    and "prefix (map row_key new) ks"
    and "io_log st' = io_log st @ concat (map io_of new) @ pending"
    and "pending = [] \<or> (\<exists>ch. pending = [Embedded ch])"
    and "failed st' = None \<longrightarrow> map row_key new = ks \<and> pending = []"
  using assms unfolding extends_def by (elim exE conjE) (rule that)

lemma extendsI:
  assumes "rows st' = rows st @ new"
    and "prefix (map row_key new) ks"
    and "io_log st' = io_log st @ concat (map io_of new) @ pending"
    and "pending = [] \<or> (\<exists>ch. pending = [Embedded ch])"
    and "failed st' = None \<Longrightarrow> map row_key new = ks \<and> pending = []"
  shows "extends st st' ks"
  unfolding extends_def
  using assms by (intro exI [where x = new] exI [where x = pending] conjI impI) auto

lemma extends_refl: "extends st st []"
  by (rule extendsI [where new = "[]" and pending = "[]"]) simp_all

lemma extends_same:
  assumes "rows st' = rows st" and "io_log st' = io_log st @ pending"
    and "pending = [] \<or> (\<exists>ch. pending = [Embedded ch])" and "failed st' \<noteq> None"
  shows "extends st st' ks"
  using assms by (intro extendsI [where new = "[]" and pending = pending]) simp_all

lemma extends_prepend:
  assumes 1: "rows st1 = rows st @ new1" "io_log st1 = io_log st @ concat (map io_of new1)"
    and "extends st1 st2 ks2"
  shows "extends st st2 (map row_key new1 @ ks2)"
proof -
  from assms(3) obtain new2 pending where 2: "rows st2 = rows st1 @ new2"
    "prefix (map row_key new2) ks2" "io_log st2 = io_log st1 @ concat (map io_of new2) @ pending"
    "pending = [] \<or> (\<exists>ch. pending = [Embedded ch])"
    "failed st2 = None \<longrightarrow> map row_key new2 = ks2 \<and> pending = []"
    by (rule extendsE)
  show ?thesis
  proof (rule extendsI [where new = "new1 @ new2" and pending = pending])
    show "rows st2 = rows st @ (new1 @ new2)" using 1 2 by simp
    show "prefix (map row_key (new1 @ new2)) (map row_key new1 @ ks2)" using 2 by simp
    show "io_log st2 = io_log st @ concat (map io_of (new1 @ new2)) @ pending" using 1 2 by simp
    show "pending = [] \<or> (\<exists>ch. pending = [Embedded ch])" by (rule 2)
    show "map row_key (new1 @ new2) = map row_key new1 @ ks2 \<and> pending = []" if "failed st2 = None"
      using 2 that by simp
  qed
qed

lemma extends_trans:
  assumes "extends st st1 ks1" and "failed st1 = None" and "extends st1 st2 ks2"
  shows "extends st st2 (ks1 @ ks2)"
proof -
  from assms(1) obtain new1 pending where 1: "rows st1 = rows st @ new1"
    "io_log st1 = io_log st @ concat (map io_of new1) @ pending"
    "failed st1 = None \<longrightarrow> map row_key new1 = ks1 \<and> pending = []"
    by (rule extendsE)
  with assms(2) have "io_log st1 = io_log st @ concat (map io_of new1)" "map row_key new1 = ks1"
    by simp_all
  with extends_prepend [OF 1(1) _ assms(3)] show ?thesis by simp
qed

lemma extends_stop:
  assumes "extends st st1 ks1" and "failed st1 \<noteq> None"
  shows "extends st st1 (ks1 @ ks2)"
proof -
  from assms(1) obtain new pending where 2: "rows st1 = rows st @ new"
    "prefix (map row_key new) ks1" "io_log st1 = io_log st @ concat (map io_of new) @ pending"
    "pending = [] \<or> (\<exists>ch. pending = [Embedded ch])"
    by (rule extendsE)
  from 2(2) have "prefix (map row_key new) (ks1 @ ks2)" by (rule prefix_prefix)
  with 2 assms(2) show ?thesis
    by (intro extendsI [where new = new and pending = pending]) simp_all
qed

lemma keys_from_Nil: "keys_from file p idx [] = []"
  by (simp add: keys_from_def)

lemma keys_from_Cons:
  "keys_from file p idx (ch # chunks) = (file, p, idx, ch) # keys_from file p (Suc idx) chunks"
  by (simp add: keys_from_def enumerate_simps)

lemma extends_insert_chunks:
  "extends st (insert_chunks embed' accepts file p idx chunks st) (keys_from file p idx chunks)"
proof (induction chunks arbitrary: idx st)
  case Nil
  show ?case by (simp add: extends_refl keys_from_Nil)
next
  case (Cons ch chunks)
  let ?ks = "keys_from file p (Suc idx) chunks"
  show ?case
  proof (cases "embed' (embeds st) ch")
    case (Inl f)
    have "extends st (st\<lparr>embeds := embeds st + 1, failed := Some f\<rparr>) ((file, p, idx, ch) # ?ks)"
      by (rule extends_same [where pending = "[]"]) simp_all
    with Inl show ?thesis by (simp add: keys_from_Cons)
  next
    case (Inr vec)
    let ?r = "\<lparr>source = file, row_page = p, chunk_index = idx, chunk = ch, embedding = vec\<rparr>"
    let ?st = "st\<lparr>embeds := embeds st + 1, io_log := io_log st @ [Embedded ch, Inserted ?r],
                   rows := rows st @ [?r]\<rparr>"
    have stop: "extends st (st\<lparr>embeds := embeds st + 1, io_log := io_log st @ [Embedded ch],
        failed := Some e\<rparr>) ((file, p, idx, ch) # ?ks)" for e
      by (rule extends_same [where pending = "[Embedded ch]"]) simp_all
    show ?thesis
    proof (cases "vec \<noteq> [] \<and> accepts ?r")
      case False
      with Inr stop show ?thesis by (auto simp: Let_def keys_from_Cons)
    next
      case True
      have "extends st (insert_chunks embed' accepts file p (Suc idx) chunks ?st)
          (map row_key [?r] @ ?ks)"
        by (rule extends_prepend [OF _ _ Cons]) (simp_all add: io_of_def)
      with Inr True show ?thesis by (simp add: Let_def row_key_def keys_from_Cons)
    qed
  qed
qed

lemma extends_ingest_pages:
  "\<exists>st'. ingest_pages embed' accepts file pages st = Some st'
     \<and> extends st st' (concat (map (page_plan file) pages))"
proof (induction pages arbitrary: st)
  case Nil
  show ?case by (simp add: extends_refl)
next
  case (Cons p pages)
  let ?chunks = "emitted (trim (collapse_ws (content p))) 900
          (offsets (int (length (trim (collapse_ws (content p))))) 750 0)"
  let ?st = "insert_chunks embed' accepts file (page p) 0 ?chunks st"
  have c: "chunkText (content p) 900 150 = Some ?chunks"
    using chunkText_closed [of 150 900 "content p"] by simp
  have one: "extends st ?st (page_plan file p)"
    unfolding page_plan_def by (rule extends_insert_chunks)
  show ?case
  proof (cases "failed ?st = None")
    case True
    from Cons [of ?st] obtain st' where st': "ingest_pages embed' accepts file pages ?st = Some st'"
      "extends ?st st' (concat (map (page_plan file) pages))" by blast
    from one True st'(2) have "extends st st' (page_plan file p @ concat (map (page_plan file) pages))"
      by (rule extends_trans)
    with c True st'(1) show ?thesis by (simp add: Let_def)
  next
    case False
    from one False have "extends st ?st (page_plan file p @ concat (map (page_plan file) pages))"
      by (rule extends_stop)
    with c False show ?thesis by (simp add: Let_def)
  qed
qed

lemma extends_ingest_files:
  "\<exists>st'. ingest_files embed' accepts files st = Some st'
     \<and> extends st st' (concat (map file_plan files))"
proof (induction files arbitrary: st)
  case Nil
  show ?case by (simp add: extends_refl)
next
  case (Cons f files)
  show ?case
  proof (cases "extract_file f")
    case (Inl e)
    have "extends st (st\<lparr>failed := Some e\<rparr>) (concat (map file_plan (f # files)))"
      by (rule extends_same [where pending = "[]"]) simp_all
    with Inl show ?thesis by simp
  next
    case (Inr ex)
    then have fp: "file_plan f = concat (map (page_plan (pdf_name f)) (pages_of ex))"
      by (simp add: file_plan_def)
    from extends_ingest_pages [of embed' accepts "pdf_name f" "pages_of ex" st]
    obtain st1 where st1: "ingest_pages embed' accepts (pdf_name f) (pages_of ex) st = Some st1"
      "extends st st1 (file_plan f)" unfolding fp by blast
    show ?thesis
    proof (cases "failed st1 = None")
      case True
      from Cons [of st1] obtain st' where st': "ingest_files embed' accepts files st1 = Some st'"
        "extends st1 st' (concat (map file_plan files))" by blast
      from st1(2) True st'(2) have "extends st st' (file_plan f @ concat (map file_plan files))"
        by (rule extends_trans)
      with Inr st1(1) True st'(1) show ?thesis by simp
    next
      case False
      from st1(2) False have "extends st st1 (file_plan f @ concat (map file_plan files))"
        by (rule extends_stop)
      with Inr st1(1) False show ?thesis by simp
    qed
  qed
qed

lemma page_plan_chunks:
  "map (\<lambda>(file, p, idx, ch). ch) (page_plan file p)
     = emitted (trim (collapse_ws (content p))) 900
         (offsets (int (length (trim (collapse_ws (content p))))) 750 0)"
proof -
  have "map (\<lambda>(file, p, idx, ch). ch) (keys_from file q i chunks) = chunks" for q i chunks
  proof (induction chunks arbitrary: i)
    case Nil
    show ?case by (simp add: keys_from_Nil)
  next
    case (Cons ch chunks)
    from Cons [of "Suc i"] show ?case by (simp add: keys_from_Cons)
  qed
  then show ?thesis by (simp add: page_plan_def)
qed

lemma page_plan_indices:
  "map (\<lambda>(file, p, idx, ch). idx) (page_plan file p) = [0..<length (page_plan file p)]"
proof -
  have "map (\<lambda>(file, p, idx, ch). idx) (keys_from file q i chunks) = [i..<i + length chunks]"
    for q i chunks
  proof (induction chunks arbitrary: i)
    case Nil
    show ?case by (simp add: keys_from_Nil)
  next
    case (Cons ch chunks)
    from Cons [of "Suc i"] show ?case by (simp add: keys_from_Cons upt_conv_Cons del: upt_Suc)
  qed
  from this [of "page p" 0] show ?thesis by (simp add: page_plan_def keys_from_def)
qed

text \<open>
  Claim C8. Every run of the driver ends (it cannot hang in the chunker), and the rows it
  has inserted are, in this order, a prefix of the plan: for each PDF of the directory
  listing in listing order, for each of its pages in the order in which they were emitted,
  for each chunk of the page in the order of \<^verbatim>\<open>chunkText\<close>, the row \<open>(file, page, index,
  chunk)\<close> with the indices \<open>0, 1, 2, \<dots>\<close> within the page (the last two lines of the
  statement say what the plan of a page is). A run without failure has inserted exactly the
  plan. The log of the run is one pair "embedded, inserted" per row,
  in the order of the rows, followed by at most one embedding whose insertion failed: every
  chunk is embedded and inserted before the next chunk is touched.
\<close>

theorem main_persists_in_order:
  "(\<exists>st pending.
      main embed' accepts listing = Some st
    \<and> prefix (map row_key (rows st)) (plan listing)
    \<and> io_log st = concat (map io_of (rows st)) @ pending
    \<and> (pending = [] \<or> (\<exists>ch. pending = [Embedded ch]))
    \<and> (failed st = None \<longrightarrow> map row_key (rows st) = plan listing \<and> pending = []))
   \<and> plan listing = concat (map file_plan (filter (\<lambda>f. is_pdf (pdf_name f)) listing))
   \<and> (\<forall>f ex. extract_file f = Inr ex \<longrightarrow>
         file_plan f = concat (map (page_plan (pdf_name f)) (pages_of ex)))
   \<and> (\<forall>file p. map (\<lambda>(file, p, idx, ch). idx) (page_plan file p) = [0..<length (page_plan file p)])
   \<and> (\<forall>file p. chunkText (content p) 900 150
         = Some (map (\<lambda>(file, p, idx, ch). ch) (page_plan file p)))"
proof -
  let ?init = "\<lparr>rows = [], io_log = [], embeds = 0, failed = None\<rparr>"
  let ?files = "filter (\<lambda>f. is_pdf (pdf_name f)) listing"
  have m: "main embed' accepts listing = ingest_files embed' accepts ?files ?init"
    by (cases "?files = []") (simp_all add: main_def Let_def)
  from extends_ingest_files [of embed' accepts ?files ?init]
  obtain st where st: "main embed' accepts listing = Some st" "extends ?init st (plan listing)"
    unfolding m plan_def by blast
  from st(2) obtain new pending where "rows st = rows ?init @ new"
    "prefix (map row_key new) (plan listing)"
    "io_log st = io_log ?init @ concat (map io_of new) @ pending"
    "pending = [] \<or> (\<exists>ch. pending = [Embedded ch])"
    "failed st = None \<longrightarrow> map row_key new = plan listing \<and> pending = []"
    by (rule extendsE)
  then have "prefix (map row_key (rows st)) (plan listing)"
    "io_log st = concat (map io_of (rows st)) @ pending"
    "pending = [] \<or> (\<exists>ch. pending = [Embedded ch])"
    "failed st = None \<longrightarrow> map row_key (rows st) = plan listing \<and> pending = []"
    by simp_all
  with st(1) have 1: "\<exists>st pending.
      main embed' accepts listing = Some st
    \<and> prefix (map row_key (rows st)) (plan listing)
    \<and> io_log st = concat (map io_of (rows st)) @ pending
    \<and> (pending = [] \<or> (\<exists>ch. pending = [Embedded ch]))
    \<and> (failed st = None \<longrightarrow> map row_key (rows st) = plan listing \<and> pending = [])"
    by (intro exI [where x = st] exI [where x = pending] conjI)
  have 2: "plan listing = concat (map file_plan ?files)" by (simp add: plan_def)
  have 3: "file_plan f = concat (map (page_plan (pdf_name f)) (pages_of ex))"
    if "extract_file f = Inr ex" for f ex
    using that by (simp add: file_plan_def)
  have 4: "chunkText (content p) 900 150 = Some (map (\<lambda>(file, p, idx, ch). ch) (page_plan f p))"
    for f p
    using chunkText_closed [of 150 900 "content p"] by (simp add: page_plan_chunks)
  from 1 2 3 4 page_plan_indices show ?thesis by blast
qed

text \<open>
  The theorem at a listing of two scanned PDFs and a text file: the first PDF has a page
  of 66 characters and a page of 40 (too short for a chunk), the second a blank page and a
  page of 70 characters.
\<close>

theorem main_persists_in_order_witness:
  "main sample_embed accept_all sample_listing =
     Some \<lparr>rows = sample_rows, io_log = concat (map io_of sample_rows), embeds = 2, failed = None\<rparr>
   \<and> map row_key sample_rows = plan sample_listing
   \<and> map chunk_index sample_rows = [0, 0]"
proof -
  let ?st = "\<lparr>rows = sample_rows, io_log = concat (map io_of sample_rows), embeds = 2, failed = None\<rparr>"
  have v: "main sample_embed accept_all sample_listing = Some ?st"
    by code_simp
  from main_persists_in_order [of sample_embed accept_all sample_listing]
  have "\<exists>st pending.
      main sample_embed accept_all sample_listing = Some st
    \<and> prefix (map row_key (rows st)) (plan sample_listing)
    \<and> io_log st = concat (map io_of (rows st)) @ pending
    \<and> (pending = [] \<or> (\<exists>ch. pending = [Embedded ch]))
    \<and> (failed st = None \<longrightarrow> map row_key (rows st) = plan sample_listing \<and> pending = [])"
    by (rule conjunct1)
  then obtain st where "main sample_embed accept_all sample_listing = Some st"
    and "failed st = None \<longrightarrow> map row_key (rows st) = plan sample_listing \<and> []  = ([] :: io list)"
    by (elim exE conjE) auto
  with v have p: "map row_key sample_rows = plan sample_listing" by simp
  have i: "map chunk_index sample_rows = [0, 0]" by (simp add: sample_rows_def)
  from v p i show ?thesis by blast
qed

end
